theory Spec2Isabelle
  imports Complex_Main "HOL-Library.Sublist"
begin

section \<open>Domain types (types.ts)\<close>

text \<open>
  Strings are lists of characters; a \<open>char\<close> stands for one code unit of the
  source string (the code units below 256). A thrown JavaScript \<open>Error\<close> is a
  value carrying its message; every fallible operation returns \<open>js_error + 'a\<close>
  with \<open>Inl\<close> for the throw.
\<close>

datatype js_error = Error string

datatype ResultStatus = StatusCompleted | StatusError

record SuccessCriterion =
  sc_id :: string
  description :: string
  category :: string
  evaluationPrompt :: string

record UserInput =
  ui_turn :: nat
  ui_utterance :: string

record TestCase =
  tc_id :: string
  userInputSequence :: "UserInput list"
  successCriteria :: "SuccessCriterion list"

record AgentResponse =
  turn :: nat
  utterance :: string

text \<open>
  The \<open>explanation\<close> of a CriterionResult comes from a parsed model reply and may be
  missing (\<open>undefined\<close>): \<open>None\<close>.
\<close>

record CriterionResult =
  criterionId :: string
  passed :: bool
  explanation :: "string option"

record TestCaseResult =
  testCaseId :: string
  agentResponses :: "AgentResponse list"
  criterionResults :: "CriterionResult list"
  status :: ResultStatus
  errorMessage :: "string option"

record PromptChange =
  pc_description :: string
  rationale :: string

record OptimizationResult =
  or_originalPrompt :: string
  or_revisedPrompt :: string
  or_changes :: "PromptChange list"
  or_targetedFailures :: "string list"

section \<open>Status state machines (utils/state-machine.ts)\<close>

datatype OptimizationStatus = Generated | Accepted | Rejected

datatype CycleStatus = Running | Paused | Completed | Cancelled

fun OPTIMIZATION_TRANSITIONS :: "OptimizationStatus \<Rightarrow> OptimizationStatus list" where
  "OPTIMIZATION_TRANSITIONS Generated = [Accepted, Rejected]"
| "OPTIMIZATION_TRANSITIONS Accepted = []"
| "OPTIMIZATION_TRANSITIONS Rejected = []"

fun CYCLE_TRANSITIONS :: "CycleStatus \<Rightarrow> CycleStatus list" where
  "CYCLE_TRANSITIONS Running = [Paused, Cancelled, Completed]"
| "CYCLE_TRANSITIONS Paused = [Running, Cancelled]"
| "CYCLE_TRANSITIONS Completed = []"
| "CYCLE_TRANSITIONS Cancelled = []"

fun optimization_status_name :: "OptimizationStatus \<Rightarrow> string" where
  "optimization_status_name Generated = ''generated''"
| "optimization_status_name Accepted = ''accepted''"
| "optimization_status_name Rejected = ''rejected''"

fun cycle_status_name :: "CycleStatus \<Rightarrow> string" where
  "cycle_status_name Running = ''running''"
| "cycle_status_name Paused = ''paused''"
| "cycle_status_name Completed = ''completed''"
| "cycle_status_name Cancelled = ''cancelled''"

text \<open>The arrow of the error messages is written \<open>->\<close> here.\<close>

definition transitionOptimizationStatus ::
  "OptimizationStatus \<Rightarrow> OptimizationStatus \<Rightarrow> js_error + OptimizationStatus" where
  "transitionOptimizationStatus current next =
     (let allowed = OPTIMIZATION_TRANSITIONS current in
      if next \<notin> set allowed
      then Inl (Error (''Invalid optimization status transition: '' @ [CHR 0x27]
                 @ optimization_status_name current @ [CHR 0x27] @ '' -> '' @ [CHR 0x27]
                 @ optimization_status_name next @ [CHR 0x27]))
      else Inr next)"

definition transitionCycleStatus :: "CycleStatus \<Rightarrow> CycleStatus \<Rightarrow> js_error + CycleStatus" where
  "transitionCycleStatus current next =
     (let allowed = CYCLE_TRANSITIONS current in
      if next \<notin> set allowed
      then Inl (Error (''Invalid cycle status transition: '' @ [CHR 0x27]
                 @ cycle_status_name current @ [CHR 0x27] @ '' -> '' @ [CHR 0x27]
                 @ cycle_status_name next @ [CHR 0x27]))
      else Inr next)"

text \<open>The edges the specification lists, written out as sets of pairs.\<close>

definition optimization_edges :: "(OptimizationStatus \<times> OptimizationStatus) set" where
  "optimization_edges = {(Generated, Accepted), (Generated, Rejected)}"

definition cycle_edges :: "(CycleStatus \<times> CycleStatus) set" where
  "cycle_edges = {(Running, Paused), (Running, Cancelled), (Running, Completed),
                  (Paused, Running), (Paused, Cancelled)}"

definition is_throw :: "js_error + 'a \<Rightarrow> bool" where
  "is_throw r = (case r of Inl _ \<Rightarrow> True | Inr _ \<Rightarrow> False)"

section \<open>Pass-rate calculator (utils/pass-rate.ts)\<close>

definition allCriteria :: "TestCaseResult list \<Rightarrow> CriterionResult list" where
  "allCriteria testCaseResults =
     concat (map criterionResults (filter (\<lambda>r. status r = StatusCompleted) testCaseResults))"

text \<open>
  JavaScript numbers are doubles. The quotient \<open>a / b\<close> of two numbers, \<open>b\<close> not 0,
  is the exact quotient rounded to a double; the rounding is the parameter \<open>rnd\<close> of
  the model. With \<open>b = 0\<close> the quotient is \<open>NaN\<close> or an infinity, which is no real
  number: \<open>None\<close>.
\<close>

type_synonym rounding = "real \<Rightarrow> real"

definition js_divide :: "rounding \<Rightarrow> real \<Rightarrow> real \<Rightarrow> real option" where
  "js_divide rnd a b = (if b = 0 then None else Some (rnd (a / b)))"

definition calculatePassRate :: "rounding \<Rightarrow> TestCaseResult list \<Rightarrow> real option" where
  "calculatePassRate rnd testCaseResults =
     (let ac = allCriteria testCaseResults in
      if length ac = 0 then Some 0
      else js_divide rnd (real (length (filter passed ac))) (real (length ac)))"

section \<open>Test executor (services/test-executor.ts)\<close>

text \<open>
  The agent-interaction collaborator takes the utterance, the prompt snapshot and the turn
  number and either answers or throws.
\<close>

type_synonym agent_fn = "string \<Rightarrow> string \<Rightarrow> nat \<Rightarrow> js_error + AgentResponse"

definition simulateAgentResponse :: agent_fn where
  "simulateAgentResponse utt agentPrompt t =
     Inr \<lparr>turn = t,
          utterance = ''[Mock agent response to '' @ [CHR 0x22] @ utt @ [CHR 0x22]
                      @ '' based on prompt]''\<rparr>"

fun collectResponses :: "agent_fn \<Rightarrow> string \<Rightarrow> UserInput list \<Rightarrow> js_error + AgentResponse list" where
  "collectResponses agent agentPrompt [] = Inr []"
| "collectResponses agent agentPrompt (i # inputs) =
     (case agent (ui_utterance i) agentPrompt (ui_turn i) of
        Inl err \<Rightarrow> Inl err
      | Inr response \<Rightarrow>
          (case collectResponses agent agentPrompt inputs of
             Inl err \<Rightarrow> Inl err
           | Inr rest \<Rightarrow> Inr (response # rest)))"

definition executeTestCase :: "agent_fn \<Rightarrow> TestCase \<Rightarrow> string \<Rightarrow> TestCaseResult" where
  "executeTestCase agent testCase agentPrompt =
     (case collectResponses agent agentPrompt (userInputSequence testCase) of
        Inr responses \<Rightarrow>
          \<lparr>testCaseId = tc_id testCase, agentResponses = responses, criterionResults = [],
           status = StatusCompleted, errorMessage = None\<rparr>
      | Inl (Error msg) \<Rightarrow>
          \<lparr>testCaseId = tc_id testCase, agentResponses = [], criterionResults = [],
           status = StatusError,
           errorMessage = Some (if msg = [] then ''Unknown execution error'' else msg)\<rparr>)"

section \<open>Result evaluator (services/result-evaluator.ts)\<close>

text \<open>
  \<open>String.prototype.trim\<close> strips white space and line terminators from both ends;
  these are the ones among the code units below 256.
\<close>

definition is_whitespace :: "char \<Rightarrow> bool" where
  "is_whitespace c =
     (c \<in> set [CHR 0x09, CHR 0x0A, CHR 0x0B, CHR 0x0C, CHR 0x0D, CHR 0x20, CHR 0xA0])"

definition trim :: "string \<Rightarrow> string" where
  "trim s = rev (dropWhile is_whitespace (rev (dropWhile is_whitespace s)))"

fun join :: "string \<Rightarrow> string list \<Rightarrow> string" where
  "join sep [] = []"
| "join sep [x] = x"
| "join sep (x # y # ys) = x @ sep @ join sep (y # ys)"

function digits :: "nat \<Rightarrow> string" where
  "digits n = (if n < 10 then [char_of (48 + n)] else digits (n div 10) @ [char_of (48 + n mod 10)])"
  by pat_completeness auto
termination
  by (relation "measure (\<lambda>n. n)") auto

declare digits.simps [simp del]

definition responseText :: "AgentResponse list \<Rightarrow> string" where
  "responseText rs = join [CHR 0x0A] (map (\<lambda>r. ''Turn '' @ digits (turn r) @ '': '' @ utterance r) rs)"

type_synonym llm_evaluate_fn = "string \<Rightarrow> SuccessCriterion \<Rightarrow> js_error + CriterionResult"

definition synthesized :: "SuccessCriterion \<Rightarrow> string" where
  "synthesized criterion =
     ''Criterion '' @ [CHR 0x22] @ description criterion @ [CHR 0x22]
     @ '' was not met by the agent response.''"

definition blank :: "string option \<Rightarrow> bool" where
  "blank e = (case e of None \<Rightarrow> True | Some s \<Rightarrow> s = [] \<or> trim s = [])"

definition evaluateCriterion ::
  "llm_evaluate_fn \<Rightarrow> AgentResponse list \<Rightarrow> SuccessCriterion \<Rightarrow> js_error + CriterionResult" where
  "evaluateCriterion llm rs criterion =
     (case llm (responseText rs) criterion of
        Inl err \<Rightarrow> Inl err
      | Inr result \<Rightarrow>
          Inr (if \<not> passed result \<and> blank (explanation result)
               then result\<lparr>explanation := Some (synthesized criterion)\<rparr>
               else result))"

fun evaluateAllCriteria ::
  "llm_evaluate_fn \<Rightarrow> AgentResponse list \<Rightarrow> SuccessCriterion list \<Rightarrow> js_error + CriterionResult list" where
  "evaluateAllCriteria llm rs [] = Inr []"
| "evaluateAllCriteria llm rs (criterion # criteria) =
     (case evaluateCriterion llm rs criterion of
        Inl err \<Rightarrow> Inl err
      | Inr result \<Rightarrow>
          (case evaluateAllCriteria llm rs criteria of
             Inl err \<Rightarrow> Inl err
           | Inr results \<Rightarrow> Inr (result # results)))"

section \<open>Retry helper (services/llm-service.ts)\<close>

text \<open>
  The wrapped operation is a thunk whose outcome may change from call to call: \<open>fn a\<close> is
  the outcome of its call number \<open>a\<close> (from 0). A thrown value is an \<open>Error\<close>
  (\<open>Inl\<close>) or any other value, given by its \<open>String(...)\<close> rendering (\<open>Inr\<close>).
  The log records every call of the operation and every sleep with its delay.
\<close>

type_synonym thrown = "js_error + string"

datatype retry_event = Attempt nat | Sleep int

definition to_error :: "thrown \<Rightarrow> js_error" where
  "to_error t = (case t of Inl e \<Rightarrow> e | Inr s \<Rightarrow> Error s)"

function retry_loop ::
  "(nat \<Rightarrow> thrown + 'a) \<Rightarrow> int \<Rightarrow> int \<Rightarrow> nat \<Rightarrow> js_error option \<Rightarrow> retry_event list
     \<Rightarrow> (js_error option + 'a) \<times> retry_event list" where
  "retry_loop fn maxRetries initialDelayMs attempt lastError evs =
     (if int attempt \<le> maxRetries then
        (case fn attempt of
           Inr v \<Rightarrow> (Inr v, evs @ [Attempt attempt])
         | Inl err \<Rightarrow>
             (if int attempt < maxRetries
              then retry_loop fn maxRetries initialDelayMs (attempt + 1) (Some (to_error err))
                     (evs @ [Attempt attempt, Sleep (initialDelayMs * 2 ^ attempt)])
              else retry_loop fn maxRetries initialDelayMs (attempt + 1) (Some (to_error err))
                     (evs @ [Attempt attempt])))
      else (Inl lastError, evs))"
  by pat_completeness auto
termination
  by (relation "measure (\<lambda>(fn, maxRetries, d, attempt, e, l). nat (maxRetries + 1 - int attempt))") auto

declare retry_loop.simps [simp del]

definition retryWithBackoff ::
  "(nat \<Rightarrow> thrown + 'a) \<Rightarrow> int \<Rightarrow> int \<Rightarrow> (js_error option + 'a) \<times> retry_event list" where
  "retryWithBackoff fn maxRetries initialDelayMs = retry_loop fn maxRetries initialDelayMs 0 None []"

section \<open>Diff engine (utils/diff.ts)\<close>

datatype ChangeType = Added | Removed | Context

record DiffChange =
  type :: ChangeType
  lineNumber :: nat
  content :: string

text \<open>\<open>s.split('\n')\<close>: the pieces between line feeds; an empty string gives one empty line.\<close>

fun split_lines :: "string \<Rightarrow> string list" where
  "split_lines [] = [[]]"
| "split_lines (c # cs) =
     (if c = CHR 0x0A then [] # split_lines cs
      else (case split_lines cs of [] \<Rightarrow> [[c]] | l # ls \<Rightarrow> (c # l) # ls))"

text \<open>
  The table of \<open>buildLCS\<close> is a list of rows; the two nested \<open>for\<close> loops fill it
  cell by cell, row 0 and column 0 staying 0.
\<close>

definition lcs_cell :: "string list \<Rightarrow> string list \<Rightarrow> nat list list \<Rightarrow> nat \<Rightarrow> nat \<Rightarrow> nat" where
  "lcs_cell a b dp i j =
     (if a ! (i - 1) = b ! (j - 1) then dp ! (i - 1) ! (j - 1) + 1
      else max (dp ! (i - 1) ! j) (dp ! i ! (j - 1)))"

definition lcs_row :: "string list \<Rightarrow> string list \<Rightarrow> nat list list \<Rightarrow> nat \<Rightarrow> nat list list" where
  "lcs_row a b dp i =
     foldl (\<lambda>d j. d[i := (d ! i)[j := lcs_cell a b d i j]]) dp [1 ..< length b + 1]"

definition lcs_table :: "string list \<Rightarrow> string list \<Rightarrow> nat list list" where
  "lcs_table a b =
     foldl (\<lambda>d i. lcs_row a b d i)
       (replicate (length a + 1) (replicate (length b + 1) 0)) [1 ..< length a + 1]"

function lcs_backtrack ::
  "string list \<Rightarrow> string list \<Rightarrow> nat list list \<Rightarrow> nat \<Rightarrow> nat \<Rightarrow> string list \<Rightarrow> string list" where
  "lcs_backtrack a b dp i j result =
     (if i > 0 \<and> j > 0 then
        (if a ! (i - 1) = b ! (j - 1)
         then lcs_backtrack a b dp (i - 1) (j - 1) (a ! (i - 1) # result)
         else if dp ! (i - 1) ! j > dp ! i ! (j - 1)
         then lcs_backtrack a b dp (i - 1) j result
         else lcs_backtrack a b dp i (j - 1) result)
      else result)"
  by pat_completeness auto
termination
  by (relation "measure (\<lambda>(a, b, dp, i, j, r). i + j)") auto

declare lcs_backtrack.simps [simp del]

definition buildLCS :: "string list \<Rightarrow> string list \<Rightarrow> string list" where
  "buildLCS a b = lcs_backtrack a b (lcs_table a b) (length a) (length b) []"

text \<open>
  The walk of \<open>computeDiff\<close>. Its \<open>while\<close> loop has three guarded branches and no
  \<open>else\<close>: when none applies the state is unchanged and the loop runs again, so the
  loop is a partial function and \<open>None\<close> stands for running forever.
\<close>

partial_function (option) diff_walk ::
  "string list \<Rightarrow> string list \<Rightarrow> string list \<Rightarrow> nat \<Rightarrow> nat \<Rightarrow> nat \<Rightarrow> DiffChange list
     \<Rightarrow> DiffChange list option" where
  "diff_walk originalLines revisedLines lcs oi ri li changes =
     (if oi < length originalLines \<or> ri < length revisedLines then
        (if li < length lcs \<and> oi < length originalLines \<and> ri < length revisedLines
            \<and> originalLines ! oi = lcs ! li \<and> revisedLines ! ri = lcs ! li
         then diff_walk originalLines revisedLines lcs (oi + 1) (ri + 1) (li + 1)
                (changes @ [\<lparr>type = Context, lineNumber = ri + 1, content = lcs ! li\<rparr>])
         else if oi < length originalLines \<and> (li \<ge> length lcs \<or> originalLines ! oi \<noteq> lcs ! li)
         then diff_walk originalLines revisedLines lcs (oi + 1) ri li
                (changes @ [\<lparr>type = Removed, lineNumber = oi + 1, content = originalLines ! oi\<rparr>])
         else if ri < length revisedLines \<and> (li \<ge> length lcs \<or> revisedLines ! ri \<noteq> lcs ! li)
         then diff_walk originalLines revisedLines lcs oi (ri + 1) li
                (changes @ [\<lparr>type = Added, lineNumber = ri + 1, content = revisedLines ! ri\<rparr>])
         else diff_walk originalLines revisedLines lcs oi ri li changes)
      else Some changes)"

declare diff_walk.simps [code]

definition computeDiff :: "string \<Rightarrow> string \<Rightarrow> DiffChange list option" where
  "computeDiff original revised =
     (if original = revised then Some []
      else (let originalLines = split_lines original;
                revisedLines = split_lines revised;
                lcs = buildLCS originalLines revisedLines
            in diff_walk originalLines revisedLines lcs 0 0 0 []))"

text \<open>The two sides of a change list: what it says the original was, and the revision.\<close>

definition original_side :: "DiffChange list \<Rightarrow> string list" where
  "original_side changes = map content (filter (\<lambda>c. type c = Context \<or> type c = Removed) changes)"

definition revised_side :: "DiffChange list \<Rightarrow> string list" where
  "revised_side changes = map content (filter (\<lambda>c. type c = Context \<or> type c = Added) changes)"

section \<open>Prompt optimizer (services/prompt-optimizer.ts)\<close>

record StoredOptimizationRecord =
  so_id :: string
  so_testRunId :: string
  so_agentId :: string
  so_originalPrompt :: string
  so_revisedPrompt :: string
  so_changes :: "PromptChange list"
  so_targetedFailures :: "string list"
  so_status :: OptimizationStatus

type_synonym llm_optimize_fn =
  "string \<Rightarrow> CriterionResult list \<Rightarrow> CriterionResult list \<Rightarrow> js_error + OptimizationResult"

text \<open>
  The OptimizationRecord table maps an id to its row; a row has no targeted failures
  (\<open>mapRow\<close> reads them back as empty). \<open>newId\<close> is the fresh \<open>uuidv4()\<close>.
\<close>

type_synonym optimization_table = "string \<rightharpoonup> StoredOptimizationRecord"

definition optimizePrompt ::
  "llm_optimize_fn \<Rightarrow> string \<Rightarrow> optimization_table \<Rightarrow> string \<Rightarrow> string \<Rightarrow> string
     \<Rightarrow> CriterionResult list \<Rightarrow> CriterionResult list
     \<Rightarrow> (js_error + StoredOptimizationRecord) \<times> optimization_table" where
  "optimizePrompt llm newId table testRunId agentId originalPrompt failures passes =
     (case llm originalPrompt failures passes of
        Inl err \<Rightarrow> (Inl err, table)
      | Inr result \<Rightarrow>
          (let stored = \<lparr>so_id = newId, so_testRunId = testRunId, so_agentId = agentId,
                         so_originalPrompt = originalPrompt,
                         so_revisedPrompt = or_revisedPrompt result,
                         so_changes = or_changes result,
                         so_targetedFailures = or_targetedFailures result,
                         so_status = Generated\<rparr>
           in (Inr stored, table(newId \<mapsto> stored\<lparr>so_targetedFailures := []\<rparr>))))"

section \<open>Cycle orchestrator (services/cycle-orchestrator.ts)\<close>

record CycleConfig =
  agentId :: string
  testSuiteId :: string
  targetThreshold :: real
  maxCycles :: real

record CycleRecord =
  cycleCount :: int
  startingPassRate :: real
  endingPassRate :: real
  cr_status :: CycleStatus
  testRunIds :: "string list"
  optimizationIds :: "string list"

datatype RunStatus = RunRunning | RunCompleted

text \<open>
  A TestRun row with the TestCaseResult and CriterionResult rows stored under it, in
  insertion order; \<open>overallPassRate\<close> is NULL until the run completes, and
  when the rate written is no number (SQLite stores \<open>NaN\<close> as NULL).
\<close>

record TestRunRow =
  promptSnapshot :: string
  tr_status :: RunStatus
  overallPassRate :: "real option"
  tr_results :: "TestCaseResult list"

datatype CycleEvent =
    CycleStart int
  | TestRunComplete int real
  | OptimizationComplete int
  | Finished CycleStatus "real option"
  | ErrorEvent string

text \<open>
  Not in the source: a log of the calls the loop makes to its two collaborators, with the
  cycle number, so that theorems can say which calls were made.
\<close>

datatype collaborator_call = CallExecuteTestRun int | CallOptimizePrompt int

text \<open>
  The part of the database and of the service the loop of one cycle reads and writes:
  the agent's current prompt, the CycleRecord row, the TestRun and OptimizationRecord
  tables, this cycle's entry of \<open>stateFlags\<close>, and the events emitted to the listeners.
  The database is taken to accept every write and to hold the agent's row: the ids are
  fresh, no constraint is violated, and a row read back by its id is the row written.
  \<open>cycleCount\<close> counts from 0 in steps of 1: an integer. \<open>maxCycles\<close> and
  \<open>targetThreshold\<close> are the numbers of the request body, which the route passes on
  as they are: real numbers.
\<close>

record world =
  currentPrompt :: string
  cycleRecord :: CycleRecord
  testRuns :: "string \<rightharpoonup> TestRunRow"
  optimizationRecords :: optimization_table
  stateFlag :: "CycleStatus option"
  emitted :: "CycleEvent list"
  calls :: "collaborator_call list"

text \<open>
  Control requests (the routes calling \<open>cancelCycle\<close>, \<open>pauseCycle\<close>,
  \<open>resumeCycle\<close>) run while the loop is suspended at an \<open>await\<close>: during the test
  run of a cycle or during its optimization call.
\<close>

datatype request = Cancel | Pause | Resume

datatype phase = DuringTestRun | DuringOptimization

text \<open>
  What is outside the loop: the test cases of the suite, the collaborators as they answer
  in cycle \<open>n\<close>, the fresh ids, the control requests arriving in each phase of cycle
  \<open>n\<close>, and the rounding of the division.
\<close>

record env =
  env_testCases :: "TestCase list"
  env_agent :: "int \<Rightarrow> agent_fn"
  env_evaluate :: "int \<Rightarrow> llm_evaluate_fn"
  env_optimize :: "int \<Rightarrow> llm_optimize_fn"
  env_runId :: "int \<Rightarrow> string"
  env_optId :: "int \<Rightarrow> string"
  env_requests :: "int \<Rightarrow> phase \<Rightarrow> request list"
  env_round :: rounding

definition emit :: "CycleEvent \<Rightarrow> world \<Rightarrow> world" where
  "emit ev w = w\<lparr>emitted := emitted w @ [ev]\<rparr>"

text \<open>
  The three control operations: the transition is checked against the persisted status,
  a rejected transition throws to the caller and leaves the flag as it is.
\<close>

definition setFlag :: "CycleStatus \<Rightarrow> world \<Rightarrow> js_error option \<times> world" where
  "setFlag target w =
     (case transitionCycleStatus (cr_status (cycleRecord w)) target of
        Inl err \<Rightarrow> (Some err, w)
      | Inr _ \<Rightarrow> (None, w\<lparr>stateFlag := Some target\<rparr>))"

definition cancelCycle :: "world \<Rightarrow> js_error option \<times> world" where
  "cancelCycle w = setFlag Cancelled w"

definition pauseCycle :: "world \<Rightarrow> js_error option \<times> world" where
  "pauseCycle w = setFlag Paused w"

definition resumeCycle :: "world \<Rightarrow> js_error option \<times> world" where
  "resumeCycle w = setFlag Running w"

fun handle_request :: "request \<Rightarrow> world \<Rightarrow> world" where
  "handle_request Cancel w = snd (cancelCycle w)"
| "handle_request Pause w = snd (pauseCycle w)"
| "handle_request Resume w = snd (resumeCycle w)"

definition apply_requests :: "request list \<Rightarrow> world \<Rightarrow> world" where
  "apply_requests rs w = foldl (\<lambda>w r. handle_request r w) w rs"

text \<open>
  The \<open>for\<close> loop of \<open>executeTestRun\<close> over the test cases: each case is executed,
  evaluated when it completed, stored and pushed. A throw of the evaluator ends the run
  with the results stored so far.
\<close>

fun runTestCases ::
  "agent_fn \<Rightarrow> llm_evaluate_fn \<Rightarrow> string \<Rightarrow> TestCase list \<Rightarrow> TestCaseResult list
     \<Rightarrow> js_error option \<times> TestCaseResult list" where
  "runTestCases ag llm prompt [] allResults = (None, allResults)"
| "runTestCases ag llm prompt (tc # tcs) allResults =
     (let result = executeTestCase ag tc prompt in
      if status result = StatusCompleted then
        (case evaluateAllCriteria llm (agentResponses result) (successCriteria tc) of
           Inl err \<Rightarrow> (Some err, allResults)
         | Inr crs \<Rightarrow>
             runTestCases ag llm prompt tcs (allResults @ [result\<lparr>criterionResults := crs\<rparr>]))
      else runTestCases ag llm prompt tcs (allResults @ [result]))"

definition executeTestRun :: "env \<Rightarrow> CycleConfig \<Rightarrow> int \<Rightarrow> world \<Rightarrow> (js_error + string) \<times> world" where
  "executeTestRun e config n w =
     (let testRunId = env_runId e n;
          prompt = currentPrompt w;
          w1 = w\<lparr>calls := calls w @ [CallExecuteTestRun n]\<rparr>;
          (err, allResults) =
             runTestCases (env_agent e n) (env_evaluate e n) prompt (env_testCases e) [];
          w2 = apply_requests (env_requests e n DuringTestRun) w1
      in case err of
           Some er \<Rightarrow>
             (Inl er, w2\<lparr>testRuns := (testRuns w2)(testRunId \<mapsto>
                \<lparr>promptSnapshot = prompt, tr_status = RunRunning, overallPassRate = None,
                 tr_results = allResults\<rparr>)\<rparr>)
         | None \<Rightarrow>
             (Inr testRunId, w2\<lparr>testRuns := (testRuns w2)(testRunId \<mapsto>
                \<lparr>promptSnapshot = prompt, tr_status = RunCompleted,
                 overallPassRate = calculatePassRate (env_round e) allResults,
                 tr_results = allResults\<rparr>)\<rparr>))"

text \<open>\<open>run?.overallPassRate ?? 0\<close> of the TestRun row read back.\<close>

definition readPassRate :: "world \<Rightarrow> string \<Rightarrow> real" where
  "readPassRate w testRunId =
     (case testRuns w testRunId of
        None \<Rightarrow> 0
      | Some row \<Rightarrow> (case overallPassRate row of None \<Rightarrow> 0 | Some r \<Rightarrow> r))"

definition getResultsForRun :: "world \<Rightarrow> string \<Rightarrow> CriterionResult list \<times> CriterionResult list" where
  "getResultsForRun w testRunId =
     (let rows = (case testRuns w testRunId of None \<Rightarrow> [] | Some row \<Rightarrow> allCriteria (tr_results row))
      in (filter (\<lambda>r. \<not> passed r) rows, filter passed rows))"

definition updateCycleRecord ::
  "int \<Rightarrow> real \<Rightarrow> real \<Rightarrow> CycleStatus \<Rightarrow> string list \<Rightarrow> string list \<Rightarrow> world \<Rightarrow> world" where
  "updateCycleRecord count startRate endRate st runIds optIds w =
     w\<lparr>cycleRecord := \<lparr>cycleCount = count, startingPassRate = startRate, endingPassRate = endRate,
                        cr_status = st, testRunIds = runIds, optimizationIds = optIds\<rparr>\<rparr>"

definition acceptOptimization :: "string \<Rightarrow> optimization_table \<Rightarrow> optimization_table" where
  "acceptOptimization oid table =
     (case table oid of None \<Rightarrow> table | Some row \<Rightarrow> table(oid \<mapsto> row\<lparr>so_status := Accepted\<rparr>))"

text \<open>The local variables of \<open>runCycleLoop\<close>.\<close>

record loop_vars =
  l_testRunIds :: "string list"
  l_optimizationIds :: "string list"
  l_cycleCount :: int
  l_currentPassRate :: real

text \<open>
  Step 3 of the loop body, inside its guard \<open>cycleCount < maxCycles\<close>: the optimizer is
  called when the run has failures, its revision is applied and accepted. The result is
  the new list of optimization ids, or the throw of the optimizer.
\<close>

definition optimizeStep ::
  "env \<Rightarrow> CycleConfig \<Rightarrow> loop_vars \<Rightarrow> string \<Rightarrow> world \<Rightarrow> (js_error + string list) \<times> world" where
  "optimizeStep e config v testRunId w =
     (let prompt = currentPrompt w;
          (failures, passes) = getResultsForRun w testRunId
      in if length failures > 0 then
           (let n = l_cycleCount v;
                w1 = w\<lparr>calls := calls w @ [CallOptimizePrompt n]\<rparr>;
                (res, table) = optimizePrompt (env_optimize e n) (env_optId e n)
                                 (optimizationRecords w1) testRunId (agentId config) prompt
                                 failures passes;
                w2 = apply_requests (env_requests e n DuringOptimization)
                       (w1\<lparr>optimizationRecords := table\<rparr>)
            in case res of
                 Inl err \<Rightarrow> (Inl err, w2)
               | Inr optRecord \<Rightarrow>
                   (Inr (l_optimizationIds v @ [so_id optRecord]),
                    emit (OptimizationComplete n)
                      (w2\<lparr>currentPrompt := so_revisedPrompt optRecord,
                          optimizationRecords :=
                            acceptOptimization (so_id optRecord) (optimizationRecords w2)\<rparr>)))
         else (Inr (l_optimizationIds v), w))"

text \<open>
  The \<open>while\<close> loop of \<open>runCycleLoop\<close> from the state at the top of the loop, with the
  two exits after it. The result is the rejection of the promise, if any, and the world.
  \<open>startingPassRate\<close> is the constant 0 the source captures before the loop.
\<close>

function runCycleLoop_while :: "env \<Rightarrow> CycleConfig \<Rightarrow> loop_vars \<Rightarrow> world \<Rightarrow> js_error option \<times> world" where
  "runCycleLoop_while e config v w =
     (if of_int (l_cycleCount v) < maxCycles config then
        (if stateFlag w = Some Cancelled then
           (None, emit (Finished Cancelled None)
                    (updateCycleRecord (l_cycleCount v) 0 (l_currentPassRate v) Cancelled
                       (l_testRunIds v) (l_optimizationIds v) w))
         else if stateFlag w = Some Paused then
           (None, emit (Finished Paused None)
                    (updateCycleRecord (l_cycleCount v) 0 (l_currentPassRate v) Paused
                       (l_testRunIds v) (l_optimizationIds v) w))
         else
           (let n = l_cycleCount v + 1;
                w1 = emit (CycleStart n) w
            in case executeTestRun e config n w1 of
                 (Inl err, w2) \<Rightarrow> (Some err, w2)
               | (Inr testRunId, w2) \<Rightarrow>
                   (let v2 = v\<lparr>l_testRunIds := l_testRunIds v @ [testRunId], l_cycleCount := n,
                                l_currentPassRate := readPassRate w2 testRunId\<rparr>;
                        w3 = emit (TestRunComplete n (l_currentPassRate v2)) w2
                    in if l_currentPassRate v2 \<ge> targetThreshold config then
                         (None, emit (Finished Completed (Some (l_currentPassRate v2)))
                                  (updateCycleRecord n 0 (l_currentPassRate v2) Completed
                                     (l_testRunIds v2) (l_optimizationIds v2) w3))
                       else if of_int n < maxCycles config then
                         (case optimizeStep e config v2 testRunId w3 of
                            (Inl err, w4) \<Rightarrow> (Some err, w4)
                          | (Inr optIds, w4) \<Rightarrow>
                              runCycleLoop_while e config (v2\<lparr>l_optimizationIds := optIds\<rparr>) w4)
                       else runCycleLoop_while e config v2 w3)))
      else (None, emit (Finished Completed (Some (l_currentPassRate v)))
                    (updateCycleRecord (l_cycleCount v) 0 (l_currentPassRate v) Completed
                       (l_testRunIds v) (l_optimizationIds v) w)))"
  by pat_completeness auto
termination
  by (relation "measure (\<lambda>(e, config, v, w). nat (\<lceil>maxCycles config\<rceil> - l_cycleCount v))")
     (auto simp: less_ceiling_iff)

declare runCycleLoop_while.simps [simp del]

text \<open>
  The number of iterations the condition of the loop allows: \<open>cycleCount < maxCycles\<close>
  holds exactly when \<open>cycleCount\<close> is below the ceiling of \<open>maxCycles\<close>.
\<close>

definition cap :: "CycleConfig \<Rightarrow> int" where
  "cap config = \<lceil>maxCycles config\<rceil>"

definition initial_vars :: loop_vars where
  "initial_vars = \<lparr>l_testRunIds = [], l_optimizationIds = [], l_cycleCount = 0, l_currentPassRate = 0\<rparr>"

definition runCycleLoop :: "env \<Rightarrow> CycleConfig \<Rightarrow> world \<Rightarrow> js_error option \<times> world" where
  "runCycleLoop e config w = runCycleLoop_while e config initial_vars w"

text \<open>
  \<open>startCycle\<close>: the CycleRecord row is inserted as running with zero counters and the
  flag is set (\<open>started\<close>); the loop runs, its first check of the flag coming before
  any other code can run; a rejection of the loop is emitted as an error event.
\<close>

definition started :: "world \<Rightarrow> world" where
  "started w = w\<lparr>cycleRecord := \<lparr>cycleCount = 0, startingPassRate = 0, endingPassRate = 0,
                                  cr_status = Running, testRunIds = [], optimizationIds = []\<rparr>,
                 stateFlag := Some Running\<rparr>"

definition startCycle :: "env \<Rightarrow> CycleConfig \<Rightarrow> world \<Rightarrow> js_error option \<times> world" where
  "startCycle e config w =
     (case runCycleLoop e config (started w) of
        (None, w2) \<Rightarrow> (None, w2)
      | (Some (Error msg), w2) \<Rightarrow> (Some (Error msg), emit (ErrorEvent msg) w2))"

definition count_test_runs :: "collaborator_call list \<Rightarrow> nat" where
  "count_test_runs cs = length (filter (\<lambda>c. case c of CallExecuteTestRun _ \<Rightarrow> True | _ \<Rightarrow> False) cs)"

definition count_optimizations :: "collaborator_call list \<Rightarrow> nat" where
  "count_optimizations cs = length (filter (\<lambda>c. case c of CallOptimizePrompt _ \<Rightarrow> True | _ \<Rightarrow> False) cs)"

section \<open>Specification-side definitions\<close>

text \<open>
  The counts the specification of the pass rate speaks of, written from its words: the
  number of criterion results of the completed test case results, and how many of them
  passed.
\<close>

definition total_criteria :: "TestCaseResult list \<Rightarrow> nat" where
  "total_criteria rs =
     sum_list (map (\<lambda>r. if status r = StatusCompleted then length (criterionResults r) else 0) rs)"

definition passed_criteria :: "TestCaseResult list \<Rightarrow> nat" where
  "passed_criteria rs =
     sum_list (map (\<lambda>r. if status r = StatusCompleted
                          then length (filter passed (criterionResults r)) else 0) rs)"

definition sample_results :: "TestCaseResult list" where
  "sample_results =
     [\<lparr>testCaseId = ''tc-1'', agentResponses = [],
       criterionResults = [\<lparr>criterionId = ''a'', passed = True, explanation = Some ''ok''\<rparr>,
                           \<lparr>criterionId = ''b'', passed = False, explanation = Some ''no''\<rparr>],
       status = StatusCompleted, errorMessage = None\<rparr>,
      \<lparr>testCaseId = ''tc-2'', agentResponses = [], criterionResults = [],
       status = StatusError, errorMessage = Some ''boom''\<rparr>]"

definition error_results :: "TestCaseResult list" where
  "error_results =
     [\<lparr>testCaseId = ''tc-2'', agentResponses = [], criterionResults = [],
       status = StatusError, errorMessage = Some ''boom''\<rparr>]"

text \<open>
  A missing or blank explanation, in the words of the specification: absent, or made of
  white space only (the empty string included).
\<close>

definition missing_or_blank :: "string option \<Rightarrow> bool" where
  "missing_or_blank e = (case e of None \<Rightarrow> True | Some s \<Rightarrow> list_all is_whitespace s)"

definition blank_llm :: llm_evaluate_fn where
  "blank_llm text criterion = Inr \<lparr>criterionId = sc_id criterion, passed = False, explanation = Some ''  ''\<rparr>"

definition sample_criterion :: SuccessCriterion where
  "sample_criterion = \<lparr>sc_id = ''sc-1'', description = ''Greets the caller'', category = ''behavioral'',
                        evaluationPrompt = ''Did the agent greet?''\<rparr>"


text \<open>
  The schedule the specification of the retry helper describes: attempts \<open>a\<close> to
  \<open>s - 1\<close>, each followed by a sleep of \<open>D * 2 ^ a\<close>; and the number of attempts
  in a log. \<open>flaky\<close>, \<open>failing\<close> and \<open>refusing\<close> are sample
  operations: the first succeeds at its third call, the second ends by throwing a string,
  the third by throwing an Error other than the ones before.
\<close>

definition backoff_from :: "int \<Rightarrow> nat \<Rightarrow> nat \<Rightarrow> retry_event list" where
  "backoff_from D a s = concat (map (\<lambda>i. [Attempt i, Sleep (D * 2 ^ i)]) [a ..< s])"

definition count_attempts :: "retry_event list \<Rightarrow> nat" where
  "count_attempts evs = length (filter (\<lambda>ev. case ev of Attempt _ \<Rightarrow> True | Sleep _ \<Rightarrow> False) evs)"

definition flaky :: "nat \<Rightarrow> thrown + string" where
  "flaky a = (if a < 2 then Inl (Inl (Error ''timeout'')) else Inr ''ok'')"

definition failing :: "nat \<Rightarrow> thrown + string" where
  "failing a = (if a < 3 then Inl (Inl (Error ''timeout'')) else Inl (Inr ''rate limited''))"

definition refusing :: "nat \<Rightarrow> thrown + string" where
  "refusing a = (if a < 3 then Inl (Inl (Error ''timeout'')) else Inl (Inl (Error ''overloaded'')))"


text \<open>Two versions of a prompt and the change list between them.\<close>

definition prompt_v1 :: string where
  "prompt_v1 = ''Greet the caller.'' @ [CHR 0x0A] @ ''Ask for a name.''"

definition prompt_v2 :: string where
  "prompt_v2 = ''Greet the caller.'' @ [CHR 0x0A] @ ''Ask for a name and an email.''"

definition diff_v1_v2 :: "DiffChange list" where
  "diff_v1_v2 =
     [\<lparr>type = Context, lineNumber = 1, content = ''Greet the caller.''\<rparr>,
      \<lparr>type = Removed, lineNumber = 2, content = ''Ask for a name.''\<rparr>,
      \<lparr>type = Added, lineNumber = 2, content = ''Ask for a name and an email.''\<rparr>]"


text \<open>
  Two clients for the optimizer: one that answers with the original prompt unchanged, one
  that is down; a failed criterion result; and the record the optimizer stores for the
  first.
\<close>

definition echo_llm :: llm_optimize_fn where
  "echo_llm original failures passes =
     Inr \<lparr>or_originalPrompt = original, or_revisedPrompt = original, or_changes = [],
          or_targetedFailures = map criterionId failures\<rparr>"

definition down_llm :: llm_optimize_fn where
  "down_llm original failures passes = Inl (Error ''LLM returned empty response'')"

definition sample_failure :: CriterionResult where
  "sample_failure = \<lparr>criterionId = ''sc-1'', passed = False, explanation = Some ''No greeting.''\<rparr>"

definition unchanged_record :: StoredOptimizationRecord where
  "unchanged_record =
     \<lparr>so_id = ''opt-1'', so_testRunId = ''run-1'', so_agentId = ''agent-1'',
      so_originalPrompt = ''Be polite.'', so_revisedPrompt = ''Be polite.'', so_changes = [],
      so_targetedFailures = [''sc-1''], so_status = Generated\<rparr>"


text \<open>
  The pass rate the loop measures in cycle \<open>n\<close> when it starts the test run in world
  \<open>w\<close>: \<open>None\<close> when the test run throws.
\<close>

definition measured_pass_rate :: "env \<Rightarrow> CycleConfig \<Rightarrow> int \<Rightarrow> world \<Rightarrow> real option" where
  "measured_pass_rate e config n w =
     (case executeTestRun e config n w of
        (Inl err, w') \<Rightarrow> None
      | (Inr testRunId, w') \<Rightarrow> Some (readPassRate w' testRunId))"


text \<open>
  Two abbreviations for the statements about the loop: the local variables after the test
  run of an iteration, and the exit of the loop (the cycle record written, the finished
  event emitted).
\<close>

definition after_run :: "loop_vars \<Rightarrow> string \<Rightarrow> world \<Rightarrow> loop_vars" where
  "after_run v rid w2 = v\<lparr>l_testRunIds := l_testRunIds v @ [rid], l_cycleCount := l_cycleCount v + 1,
                           l_currentPassRate := readPassRate w2 rid\<rparr>"

definition finish :: "loop_vars \<Rightarrow> CycleStatus \<Rightarrow> world \<Rightarrow> world" where
  "finish v st w =
     emit (Finished st (if st = Completed then Some (l_currentPassRate v) else None))
       (updateCycleRecord (l_cycleCount v) 0 (l_currentPassRate v) st
          (l_testRunIds v) (l_optimizationIds v) w)"


text \<open>
  Predicates on the two logs, used to state what a run did: the cycle a collaborator call
  belongs to; that every test run completed so far was below the threshold; that every
  call made so far belongs to a cycle up to \<open>c\<close>; and the two outcomes, a run that
  stopped at cycle \<open>k\<close> on meeting the threshold with pass rate \<open>r\<close>, and a run
  in whose cycle \<open>k\<close> a cancel request arrived.
\<close>

definition call_index :: "collaborator_call \<Rightarrow> int" where
  "call_index c = (case c of CallExecuteTestRun n \<Rightarrow> n | CallOptimizePrompt n \<Rightarrow> n)"

definition below_so_far :: "CycleConfig \<Rightarrow> world \<Rightarrow> bool" where
  "below_so_far config w = list_all (\<lambda>ev. case ev of TestRunComplete n r \<Rightarrow> r < targetThreshold config | _ \<Rightarrow> True) (emitted w)"

definition calls_up_to :: "int \<Rightarrow> world \<Rightarrow> bool" where
  "calls_up_to c w = list_all (\<lambda>x. call_index x \<le> c) (calls w)"

definition stopped_at ::
  "int \<Rightarrow> real \<Rightarrow> js_error option \<times> world \<Rightarrow> bool" where
  "stopped_at k r res =
     (fst res = None
      \<and> cr_status (cycleRecord (snd res)) = Completed
      \<and> cycleCount (cycleRecord (snd res)) = k
      \<and> endingPassRate (cycleRecord (snd res)) = r
      \<and> calls (snd res) \<noteq> [] \<and> last (calls (snd res)) = CallExecuteTestRun k
      \<and> CallOptimizePrompt k \<notin> set (calls (snd res))
      \<and> CallExecuteTestRun (k + 1) \<notin> set (calls (snd res)))"


text \<open>
  Sample environments: a suite of one test case with one criterion; an evaluator that fails
  every criterion (\<open>strict_env\<close>) or fails them in cycle 1 and passes them from
  cycle 2 on (\<open>improving_env\<close>); the
  mock optimizer, or one that is down (\<open>broken_env\<close>); and a cancel request arriving
  during the first test run (\<open>cancelling_env\<close>), followed there by a pause request
  (\<open>cancelling_pausing_env\<close>), or with the optimizer down
  (\<open>cancelling_broken_env\<close>).
\<close>

definition lenient_llm :: llm_evaluate_fn where
  "lenient_llm text criterion = Inr \<lparr>criterionId = sc_id criterion, passed = True, explanation = Some ''ok''\<rparr>"

definition mock_optimize :: llm_optimize_fn where
  "mock_optimize original failures passes =
     Inr \<lparr>or_originalPrompt = original, or_revisedPrompt = original @ [CHR 0x0A] @ ''[optimized]'',
          or_changes = [], or_targetedFailures = []\<rparr>"

definition greeting_case :: TestCase where
  "greeting_case = \<lparr>tc_id = ''tc-1'', userInputSequence = [\<lparr>ui_turn = 1, ui_utterance = ''Hello''\<rparr>],
                     successCriteria = [sample_criterion]\<rparr>"

definition strict_env :: env where
  "strict_env =
     \<lparr>env_testCases = [greeting_case],
      env_agent = (\<lambda>n. simulateAgentResponse),
      env_evaluate = (\<lambda>n. blank_llm),
      env_optimize = (\<lambda>n. mock_optimize),
      env_runId = (\<lambda>n. if n = 1 then ''run-1'' else if n = 2 then ''run-2'' else ''run-n''),
      env_optId = (\<lambda>n. if n = 1 then ''opt-1'' else ''opt-n''),
      env_requests = (\<lambda>n p. []),
      env_round = (\<lambda>x. x)\<rparr>"

definition improving_env :: env where
  "improving_env = strict_env\<lparr>env_evaluate := (\<lambda>n. if n < 2 then blank_llm else lenient_llm)\<rparr>"





definition sample_config :: "real \<Rightarrow> CycleConfig" where
  "sample_config M = \<lparr>agentId = ''agent-1'', testSuiteId = ''suite-1'', targetThreshold = 9 / 10, maxCycles = M\<rparr>"

definition blank_world :: world where
  "blank_world =
     \<lparr>currentPrompt = ''Be polite.'',
      cycleRecord = \<lparr>cycleCount = 0, startingPassRate = 0, endingPassRate = 0, cr_status = Running,
                     testRunIds = [], optimizationIds = []\<rparr>,
      testRuns = Map.empty, optimizationRecords = Map.empty, stateFlag = None,
      emitted = [], calls = []\<rparr>"

section \<open>The pass rate\<close>

lemma length_allCriteria: "length (allCriteria rs) = total_criteria rs"
  by (induction rs) (simp_all add: allCriteria_def total_criteria_def)

lemma length_passed_allCriteria: "length (filter passed (allCriteria rs)) = passed_criteria rs"
  by (induction rs) (simp_all add: allCriteria_def passed_criteria_def)

lemma passed_le_total: "passed_criteria rs \<le> total_criteria rs"
  unfolding length_allCriteria [symmetric] length_passed_allCriteria [symmetric]
  by (rule length_filter_le)

lemma all_error_total: "\<forall>r \<in> set rs. status r = StatusError \<Longrightarrow> total_criteria rs = 0"
  by (induction rs) (simp_all add: total_criteria_def)

lemma calculatePassRate_value:
  "calculatePassRate rnd rs =
     Some (if total_criteria rs = 0 then 0
           else rnd (real (passed_criteria rs) / real (total_criteria rs)))"
  unfolding calculatePassRate_def Let_def js_divide_def length_allCriteria length_passed_allCriteria
  by simp

text \<open>
  C5. For every list of test case results and every rounding \<open>rnd\<close> of the division,
  \<open>calculatePassRate\<close> returns a number (never \<open>NaN\<close>, the division never has
  divisor 0): the number of passed criterion results of the completed results divided by
  the number of all criterion results of the completed results, as the division rounds
  it, and exactly 0 when that number is 0, as it is when every result has status error.
  The value lies between 0 and 1 for a rounding that is monotone and leaves 0 and 1 as
  they are, as the rounding to the nearest double does.
\<close>

theorem calculatePassRate_ratio:
  "calculatePassRate rnd rs =
     Some (if total_criteria rs = 0 then 0
           else rnd (real (passed_criteria rs) / real (total_criteria rs)))
   \<and> ((\<forall>r \<in> set rs. status r = StatusError) \<longrightarrow> calculatePassRate rnd rs = Some 0)
   \<and> (mono rnd \<and> rnd 0 = 0 \<and> rnd 1 = 1
        \<longrightarrow> (\<exists>x. calculatePassRate rnd rs = Some x \<and> 0 \<le> x \<and> x \<le> 1))"
proof -
  note eq = calculatePassRate_value [of rnd rs]
  have err: "(\<forall>r \<in> set rs. status r = StatusError) \<longrightarrow> calculatePassRate rnd rs = Some 0"
    using all_error_total [of rs] by (simp add: eq)
  have range: "mono rnd \<and> rnd 0 = 0 \<and> rnd 1 = 1
        \<longrightarrow> (\<exists>x. calculatePassRate rnd rs = Some x \<and> 0 \<le> x \<and> x \<le> 1)"
  proof
    assume r: "mono rnd \<and> rnd 0 = 0 \<and> rnd 1 = 1"
    let ?q = "real (passed_criteria rs) / real (total_criteria rs)"
    have m: "mono rnd" and r0: "rnd 0 = 0" and r1: "rnd 1 = 1" using r by blast+
    have q0: "0 \<le> ?q" by simp
    have q1: "?q \<le> 1"
    proof (cases "total_criteria rs = 0")
      case True
      then show ?thesis by simp
    next
      case False
      then show ?thesis using passed_le_total [of rs] by simp
    qed
    have "rnd 0 \<le> rnd ?q" by (rule monoD [OF m q0])
    moreover have "rnd ?q \<le> rnd 1" by (rule monoD [OF m q1])
    ultimately have "0 \<le> rnd ?q" "rnd ?q \<le> 1" using r0 r1 by simp_all
    then show "\<exists>x. calculatePassRate rnd rs = Some x \<and> 0 \<le> x \<and> x \<le> 1" by (simp add: eq)
  qed
  show ?thesis using eq err range by blast
qed

theorem calculatePassRate_ratio_witness:
  "calculatePassRate (\<lambda>x. x) sample_results = Some (1 / 2)
   \<and> map status error_results = [StatusError] \<and> calculatePassRate (\<lambda>x. x) error_results = Some 0
   \<and> mono (\<lambda>x::real. x)
   \<and> (\<exists>x. calculatePassRate (\<lambda>x. x) sample_results = Some x \<and> 0 \<le> x \<and> x \<le> 1)"
proof -
  have a: "\<forall>r \<in> set error_results. status r = StatusError" by (simp add: error_results_def)
  have m: "mono (\<lambda>x::real. x)" by (simp add: mono_def)
  have n: "total_criteria sample_results = 2" "passed_criteria sample_results = 1"
    by (simp_all add: total_criteria_def passed_criteria_def sample_results_def)
  have st: "map status error_results = [StatusError]" by (simp add: error_results_def)
  note s = calculatePassRate_ratio [of "\<lambda>x. x" sample_results]
  note e = calculatePassRate_ratio [of "\<lambda>x. x" error_results]
  have 1: "calculatePassRate (\<lambda>x. x) sample_results = Some (1 / 2)" using s n by simp
  have 2: "calculatePassRate (\<lambda>x. x) error_results = Some 0" using e a by blast
  from s have "mono (\<lambda>x::real. x) \<and> (0::real) = 0 \<and> (1::real) = 1
      \<longrightarrow> (\<exists>x. calculatePassRate (\<lambda>x. x) sample_results = Some x \<and> 0 \<le> x \<and> x \<le> 1)"
    by blast
  then have 3: "\<exists>x. calculatePassRate (\<lambda>x. x) sample_results = Some x \<and> 0 \<le> x \<and> x \<le> 1"
    using m by blast
  show ?thesis using 1 2 3 st m by blast
qed

section \<open>The status state machines\<close>

text \<open>
  C7. For every pair of a current and a requested status, each transition function
  returns the requested status exactly when the pair is an edge of its table
  (optimization: generated to accepted or rejected; cycle: running to paused, cancelled
  or completed, paused to running or cancelled) and throws for every other pair, so for
  every transition out of accepted, rejected, completed and cancelled.
\<close>

theorem transitions_follow_tables:
  "(transitionOptimizationStatus oc on = Inr on \<longleftrightarrow> (oc, on) \<in> optimization_edges)
   \<and> (is_throw (transitionOptimizationStatus oc on) \<longleftrightarrow> (oc, on) \<notin> optimization_edges)
   \<and> (transitionCycleStatus cc cn = Inr cn \<longleftrightarrow> (cc, cn) \<in> cycle_edges)
   \<and> (is_throw (transitionCycleStatus cc cn) \<longleftrightarrow> (cc, cn) \<notin> cycle_edges)
   \<and> (oc \<in> {Accepted, Rejected} \<longrightarrow> is_throw (transitionOptimizationStatus oc on))
   \<and> (cc \<in> {Completed, Cancelled} \<longrightarrow> is_throw (transitionCycleStatus cc cn))"
  by (cases oc; cases on; cases cc; cases cn)
     (simp_all add: transitionOptimizationStatus_def transitionCycleStatus_def
        optimization_edges_def cycle_edges_def is_throw_def)

theorem transitions_follow_tables_witness:
  "Accepted \<in> {Accepted, Rejected} \<and> is_throw (transitionOptimizationStatus Accepted Rejected)
   \<and> Completed \<in> {Completed, Cancelled} \<and> is_throw (transitionCycleStatus Completed Running)
   \<and> transitionCycleStatus Paused Running = Inr Running
   \<and> transitionOptimizationStatus Generated Accepted = Inr Accepted"
  using transitions_follow_tables [of Accepted Rejected Completed Running]
    transitions_follow_tables [of Generated Accepted Paused Running]
  by (simp add: optimization_edges_def cycle_edges_def)

section \<open>The result evaluator\<close>

lemma trim_Nil_iff: "trim s = [] \<longleftrightarrow> list_all is_whitespace s"
proof
  assume "trim s = []"
  then have a: "\<forall>x \<in> set (dropWhile is_whitespace s). is_whitespace x"
    by (simp add: trim_def dropWhile_eq_Nil_conv)
  have "dropWhile is_whitespace s = []"
  proof (rule ccontr)
    assume ne: "dropWhile is_whitespace s \<noteq> []"
    then have "\<not> is_whitespace (hd (dropWhile is_whitespace s))" by (rule hd_dropWhile)
    moreover have "hd (dropWhile is_whitespace s) \<in> set (dropWhile is_whitespace s)"
      using ne by simp
    ultimately show False using a by blast
  qed
  then show "list_all is_whitespace s" by (simp add: dropWhile_eq_Nil_conv list_all_iff)
next
  assume "list_all is_whitespace s"
  then have d: "dropWhile is_whitespace s = []" by (induction s) simp_all
  show "trim s = []" unfolding trim_def d by simp
qed

lemma blank_iff: "blank e \<longleftrightarrow> missing_or_blank e"
  by (cases e) (auto simp: blank_def missing_or_blank_def trim_Nil_iff)

lemma synthesized_not_Nil: "synthesized c \<noteq> []"
  by (simp add: synthesized_def)

lemma synthesized_mentions: "sublist (description c) (synthesized c)"
  unfolding synthesized_def sublist_def by (metis append.assoc)

lemma evaluateCriterion_explained:
  assumes "evaluateCriterion llm rs c = Inr result" and "\<not> passed result"
  shows "\<exists>s. explanation result = Some s \<and> s \<noteq> []"
proof -
  obtain raw where raw: "llm (responseText rs) c = Inr raw"
    using assms(1) by (cases "llm (responseText rs) c") (simp_all add: evaluateCriterion_def)
  show ?thesis
  proof (cases "\<not> passed raw \<and> blank (explanation raw)")
    case True
    then have "result = raw\<lparr>explanation := Some (synthesized c)\<rparr>"
      using assms(1) raw by (simp add: evaluateCriterion_def)
    then show ?thesis by (simp add: synthesized_not_Nil)
  next
    case False
    then have r: "result = raw" using assms(1) raw by (auto simp: evaluateCriterion_def)
    then have "\<not> blank (explanation result)" using False assms(2) by simp
    then show ?thesis by (cases "explanation result") (auto simp: blank_def)
  qed
qed

lemma evaluateAllCriteria_explained:
  "evaluateAllCriteria llm rs cs = Inr results \<Longrightarrow>
   \<forall>r \<in> set results. \<not> passed r \<longrightarrow> (\<exists>s. explanation r = Some s \<and> s \<noteq> [])"
proof (induction cs arbitrary: results)
  case Nil
  then show ?case by simp
next
  case (Cons c cs)
  from Cons.prems obtain r rest where r: "evaluateCriterion llm rs c = Inr r"
    and rest: "evaluateAllCriteria llm rs cs = Inr rest" and res: "results = r # rest"
    by (auto split: sum.splits)
  show ?case using evaluateCriterion_explained [OF r] Cons.IH [OF rest] res by auto
qed

text \<open>
  C6. Every CriterionResult the evaluator returns with \<open>passed = false\<close>, from
  \<open>evaluateCriterion\<close> or in the list of \<open>evaluateAllCriteria\<close>, has an
  explanation that is present and not the empty string; and when the client answers
  \<open>passed = false\<close> with a missing or blank explanation, the evaluator returns the
  client's result with the explanation replaced by the synthesized sentence, which is not
  empty and contains the criterion's description.
\<close>

theorem evaluator_explains_failures:
  "(evaluateCriterion llm rs c = Inr result \<and> \<not> passed result
      \<longrightarrow> (\<exists>s. explanation result = Some s \<and> s \<noteq> []))
   \<and> (llm (responseText rs) c = Inr raw \<and> \<not> passed raw \<and> missing_or_blank (explanation raw)
      \<longrightarrow> evaluateCriterion llm rs c = Inr (raw\<lparr>explanation := Some (synthesized c)\<rparr>)
          \<and> synthesized c \<noteq> [] \<and> sublist (description c) (synthesized c))
   \<and> (evaluateAllCriteria llm rs cs = Inr results
      \<longrightarrow> (\<forall>r \<in> set results. \<not> passed r \<longrightarrow> (\<exists>s. explanation r = Some s \<and> s \<noteq> [])))"
proof (intro conjI impI)
  assume "evaluateCriterion llm rs c = Inr result \<and> \<not> passed result"
  then show "\<exists>s. explanation result = Some s \<and> s \<noteq> []"
    using evaluateCriterion_explained by blast
next
  assume a: "llm (responseText rs) c = Inr raw \<and> \<not> passed raw \<and> missing_or_blank (explanation raw)"
  then show "evaluateCriterion llm rs c = Inr (raw\<lparr>explanation := Some (synthesized c)\<rparr>)"
    by (simp add: evaluateCriterion_def blank_iff)
  show "synthesized c \<noteq> []" by (rule synthesized_not_Nil)
  show "sublist (description c) (synthesized c)" by (rule synthesized_mentions)
next
  assume "evaluateAllCriteria llm rs cs = Inr results"
  then show "\<forall>r \<in> set results. \<not> passed r \<longrightarrow> (\<exists>s. explanation r = Some s \<and> s \<noteq> [])"
    by (rule evaluateAllCriteria_explained)
qed

theorem evaluator_explains_failures_witness:
  "evaluateCriterion blank_llm [] sample_criterion
     = Inr \<lparr>criterionId = ''sc-1'', passed = False,
            explanation = Some (''Criterion '' @ [CHR 0x22] @ ''Greets the caller'' @ [CHR 0x22] @ '' was not met by the agent response.'')\<rparr>
   \<and> missing_or_blank (Some ''  '')
   \<and> evaluateAllCriteria blank_llm [] [sample_criterion]
     = Inr [\<lparr>criterionId = ''sc-1'', passed = False,
            explanation = Some (''Criterion '' @ [CHR 0x22] @ ''Greets the caller'' @ [CHR 0x22] @ '' was not met by the agent response.'')\<rparr>]"
proof -
  let ?raw = "\<lparr>criterionId = ''sc-1'', passed = False, explanation = Some ''  ''\<rparr>"
  have l: "blank_llm (responseText []) sample_criterion = Inr ?raw"
    by (simp add: blank_llm_def sample_criterion_def)
  have b: "missing_or_blank (explanation ?raw)"
    by (simp add: missing_or_blank_def is_whitespace_def)
  have p: "\<not> passed ?raw" by simp
  have e: "evaluateCriterion blank_llm [] sample_criterion = Inr (?raw\<lparr>explanation := Some (synthesized sample_criterion)\<rparr>)"
    using evaluator_explains_failures [of blank_llm "[]" sample_criterion undefined ?raw "[]" "[]"] l b p
    by blast
  then show ?thesis using b by (simp add: synthesized_def sample_criterion_def)
qed

section \<open>The retry helper\<close>

lemma backoff_from_step: "a < s \<Longrightarrow> backoff_from D a s = [Attempt a, Sleep (D * 2 ^ a)] @ backoff_from D (Suc a) s"
  by (simp add: backoff_from_def upt_conv_Cons)

lemma backoff_from_same: "backoff_from D a a = []"
  by (simp add: backoff_from_def)

lemma count_attempts_backoff: "a \<le> s \<Longrightarrow> count_attempts (backoff_from D a s @ [Attempt s]) = s - a + 1"
proof (induction "s - a" arbitrary: a)
  case 0
  then show ?case by (simp add: backoff_from_same count_attempts_def)
next
  case (Suc k)
  then have lt: "a < s" and k: "k = s - Suc a" by simp_all
  have "count_attempts (backoff_from D (Suc a) s @ [Attempt s]) = s - Suc a + 1"
    using Suc.hyps(1) [OF k] lt by simp
  then show ?case using lt by (simp add: backoff_from_step count_attempts_def)
qed

lemma retry_loop_success:
  assumes "a \<le> s" and "int s \<le> R" and "fn s = Inr v"
    and "\<forall>i. a \<le> i \<and> i < s \<longrightarrow> (\<exists>t. fn i = Inl t)"
  shows "retry_loop fn R D a lastErr evs = (Inr v, evs @ backoff_from D a s @ [Attempt s])"
  using assms
proof (induction "s - a" arbitrary: a lastErr evs)
  case 0
  then have "a = s" by simp
  then show ?case using "0.prems" by (subst retry_loop.simps) (simp add: backoff_from_same)
next
  case (Suc k)
  then have lt: "a < s" and k: "k = s - Suc a" by simp_all
  obtain t where t: "fn a = Inl t" using Suc.prems(4) lt by auto
  have le: "int a < R" using lt Suc.prems(2) by simp
  have rest: "\<forall>i. Suc a \<le> i \<and> i < s \<longrightarrow> (\<exists>t. fn i = Inl t)" using Suc.prems(4) by auto
  have "retry_loop fn R D (Suc a) (Some (to_error t)) (evs @ [Attempt a, Sleep (D * 2 ^ a)])
        = (Inr v, (evs @ [Attempt a, Sleep (D * 2 ^ a)]) @ backoff_from D (Suc a) s @ [Attempt s])"
    using Suc.hyps(1) [OF k _ Suc.prems(2,3) rest] lt by simp
  then show ?case using t le lt by (subst retry_loop.simps) (simp add: backoff_from_step)
qed

lemma retry_loop_exhausted:
  assumes "int a \<le> R" and "\<forall>i. a \<le> i \<and> int i \<le> R \<longrightarrow> (\<exists>t. fn i = Inl t)"
    and "fn (nat R) = Inl t"
  shows "retry_loop fn R D a lastErr evs
         = (Inl (Some (to_error t)), evs @ backoff_from D a (nat R) @ [Attempt (nat R)])"
  using assms
proof (induction "nat R - a" arbitrary: a lastErr evs)
  case 0
  then have a: "a = nat R" by simp
  have "\<not> int (a + 1) \<le> R" using a by simp
  then have stop: "retry_loop fn R D (a + 1) (Some (to_error t)) (evs @ [Attempt a])
                   = (Inl (Some (to_error t)), evs @ [Attempt a])"
    by (subst retry_loop.simps) simp
  have "\<not> int a < R" using a by simp
  then show ?case using "0.prems" a stop
    by (subst retry_loop.simps) (simp add: backoff_from_same)
next
  case (Suc k)
  then have lt: "int a < R" and k: "k = nat R - Suc a" by simp_all
  obtain u where u: "fn a = Inl u" using Suc.prems(1,2) by auto
  have rest: "\<forall>i. Suc a \<le> i \<and> int i \<le> R \<longrightarrow> (\<exists>t. fn i = Inl t)" using Suc.prems(2) by auto
  have le: "int (Suc a) \<le> R" using lt by simp
  have "retry_loop fn R D (Suc a) (Some (to_error u)) (evs @ [Attempt a, Sleep (D * 2 ^ a)])
        = (Inl (Some (to_error t)),
           (evs @ [Attempt a, Sleep (D * 2 ^ a)]) @ backoff_from D (Suc a) (nat R) @ [Attempt (nat R)])"
    using Suc.hyps(1) [OF k le rest Suc.prems(3)] .
  moreover have "a < nat R" using lt by simp
  ultimately show ?case using u lt Suc.prems(1)
    by (subst retry_loop.simps) (simp add: backoff_from_step)
qed

text \<open>
  C9. For a maximum retry count \<open>R \<ge> 0\<close> and an initial delay \<open>D\<close>: when call
  number \<open>s \<le> R\<close> of the operation is the first to succeed, the helper returns its
  result, and the log is exactly attempts 0 to \<open>s - 1\<close>, each followed by a sleep of
  \<open>D * 2 ^ a\<close>, then attempt \<open>s\<close> and nothing more; when every call up to number
  \<open>R\<close> fails, the helper throws what call \<open>R\<close>, the last, threw: the Error
  itself when it threw an Error, and an Error with the string rendering of the value as
  its message when it threw anything else, after attempts 0 to \<open>R\<close> with a sleep of
  \<open>D * 2 ^ a\<close> after each but the last; and in every case the operation is attempted at
  most \<open>R + 1\<close> times.
\<close>

theorem retryWithBackoff_schedule:
  assumes "0 \<le> R"
  shows "(int s \<le> R \<and> fn s = Inr v \<and> (\<forall>i < s. \<exists>t. fn i = Inl t)
            \<longrightarrow> retryWithBackoff fn R D = (Inr v, backoff_from D 0 s @ [Attempt s]))
       \<and> ((\<forall>i. int i \<le> R \<longrightarrow> (\<exists>t. fn i = Inl t)) \<and> fn (nat R) = Inl (Inl err)
            \<longrightarrow> retryWithBackoff fn R D
                = (Inl (Some err), backoff_from D 0 (nat R) @ [Attempt (nat R)]))
       \<and> ((\<forall>i. int i \<le> R \<longrightarrow> (\<exists>t. fn i = Inl t)) \<and> fn (nat R) = Inl (Inr x)
            \<longrightarrow> retryWithBackoff fn R D
                = (Inl (Some (Error x)), backoff_from D 0 (nat R) @ [Attempt (nat R)]))
       \<and> int (count_attempts (snd (retryWithBackoff fn R D))) \<le> R + 1"
proof (intro conjI impI)
  assume a: "int s \<le> R \<and> fn s = Inr v \<and> (\<forall>i < s. \<exists>t. fn i = Inl t)"
  then show "retryWithBackoff fn R D = (Inr v, backoff_from D 0 s @ [Attempt s])"
    using retry_loop_success [of 0 s R fn v D None "[]"] by (simp add: retryWithBackoff_def)
next
  assume a: "(\<forall>i. int i \<le> R \<longrightarrow> (\<exists>t. fn i = Inl t)) \<and> fn (nat R) = Inl (Inl err)"
  then show "retryWithBackoff fn R D
             = (Inl (Some err), backoff_from D 0 (nat R) @ [Attempt (nat R)])"
    using retry_loop_exhausted [of 0 R fn "Inl err" D None "[]"] assms
    by (simp add: retryWithBackoff_def to_error_def)
next
  assume a: "(\<forall>i. int i \<le> R \<longrightarrow> (\<exists>t. fn i = Inl t)) \<and> fn (nat R) = Inl (Inr x)"
  then show "retryWithBackoff fn R D
             = (Inl (Some (Error x)), backoff_from D 0 (nat R) @ [Attempt (nat R)])"
    using retry_loop_exhausted [of 0 R fn "Inr x" D None "[]"] assms
    by (simp add: retryWithBackoff_def to_error_def)
next
  show "int (count_attempts (snd (retryWithBackoff fn R D))) \<le> R + 1"
  proof (cases "\<exists>s. int s \<le> R \<and> (\<exists>v. fn s = Inr v)")
    case True
    define s where "s = (LEAST s. int s \<le> R \<and> (\<exists>v. fn s = Inr v))"
    have s: "int s \<le> R \<and> (\<exists>v. fn s = Inr v)"
      unfolding s_def using True by (rule LeastI_ex)
    then obtain v where v: "fn s = Inr v" by blast
    have before: "\<forall>i < s. \<exists>t. fn i = Inl t"
    proof (intro allI impI)
      fix i assume i: "i < s"
      have "\<not> (int i \<le> R \<and> (\<exists>v. fn i = Inr v))"
        using i not_less_Least unfolding s_def by blast
      moreover have "int i \<le> R" using i s by simp
      ultimately show "\<exists>t. fn i = Inl t" by (cases "fn i") auto
    qed
    have "retryWithBackoff fn R D = (Inr v, backoff_from D 0 s @ [Attempt s])"
      using retry_loop_success [of 0 s R fn v D None "[]"] s v before
      by (simp add: retryWithBackoff_def)
    then show ?thesis using count_attempts_backoff [of 0 s D] s by simp
  next
    case False
    then have all: "\<forall>i. int i \<le> R \<longrightarrow> (\<exists>t. fn i = Inl t)"
      by (metis sum.exhaust)
    moreover have "int (nat R) \<le> R" using assms by simp
    ultimately obtain u where u: "fn (nat R) = Inl u" by blast
    have "retryWithBackoff fn R D
          = (Inl (Some (to_error u)), backoff_from D 0 (nat R) @ [Attempt (nat R)])"
      using retry_loop_exhausted [of 0 R fn u D None "[]"] assms all u
      by (simp add: retryWithBackoff_def)
    then show ?thesis using count_attempts_backoff [of 0 "nat R" D] assms by simp
  qed
qed

theorem retryWithBackoff_schedule_witness:
  "(0::int) \<le> 3
   \<and> retryWithBackoff flaky 3 1000
       = (Inr ''ok'', [Attempt 0, Sleep 1000, Attempt 1, Sleep 2000, Attempt 2])
   \<and> refusing 2 = Inl (Inl (Error ''timeout'')) \<and> refusing 3 = Inl (Inl (Error ''overloaded''))
   \<and> retryWithBackoff refusing 3 1000
       = (Inl (Some (Error ''overloaded'')),
          [Attempt 0, Sleep 1000, Attempt 1, Sleep 2000, Attempt 2, Sleep 4000, Attempt 3])
   \<and> failing 3 = Inl (Inr ''rate limited'')
   \<and> retryWithBackoff failing 3 1000
       = (Inl (Some (Error ''rate limited'')),
          [Attempt 0, Sleep 1000, Attempt 1, Sleep 2000, Attempt 2, Sleep 4000, Attempt 3])"
proof -
  have r: "(0::int) \<le> 3" by simp
  have f2: "flaky 2 = Inr ''ok''" by (simp add: flaky_def)
  have fb: "\<forall>i < 2. \<exists>t. flaky i = Inl t" by (simp add: flaky_def)
  have ga: "\<forall>i. int i \<le> 3 \<longrightarrow> (\<exists>t. failing i = Inl t)" by (simp add: failing_def)
  have g3: "failing (nat 3) = Inl (Inr ''rate limited'')" by (simp add: failing_def)
  have ha: "\<forall>i. int i \<le> 3 \<longrightarrow> (\<exists>t. refusing i = Inl t)" by (simp add: refusing_def)
  have h3: "refusing (nat 3) = Inl (Inl (Error ''overloaded''))" by (simp add: refusing_def)
  have v: "refusing 2 = Inl (Inl (Error ''timeout''))" "refusing 3 = Inl (Inl (Error ''overloaded''))"
    "failing 3 = Inl (Inr ''rate limited'')"
    by (simp_all add: refusing_def failing_def)
  have b2: "backoff_from 1000 0 2 = [Attempt 0, Sleep 1000, Attempt 1, Sleep 2000]"
    by (simp add: backoff_from_def upt_conv_Cons)
  have b3: "backoff_from 1000 0 (nat 3) = [Attempt 0, Sleep 1000, Attempt 1, Sleep 2000, Attempt 2, Sleep 4000]"
    by (simp add: backoff_from_def upt_conv_Cons)
  have 1: "retryWithBackoff flaky 3 1000 = (Inr ''ok'', backoff_from 1000 0 2 @ [Attempt 2])"
    using retryWithBackoff_schedule [OF r, where s = 2 and fn = flaky and v = "''ok''" and D = 1000] f2 fb by simp
  have 2: "retryWithBackoff refusing 3 1000
                 = (Inl (Some (Error ''overloaded'')), backoff_from 1000 0 (nat 3) @ [Attempt (nat 3)])"
    using retryWithBackoff_schedule [OF r, where fn = refusing and err = "Error ''overloaded''" and D = 1000]
      ha h3 by blast
  have 3: "retryWithBackoff failing 3 1000
                 = (Inl (Some (Error ''rate limited'')), backoff_from 1000 0 (nat 3) @ [Attempt (nat 3)])"
    using retryWithBackoff_schedule [OF r, where fn = failing and x = "''rate limited''" and D = 1000]
      ga g3 by blast
  show ?thesis using 1 2 3 v b2 b3 by simp
qed

section \<open>The diff engine\<close>

lemma split_lines_not_Nil: "split_lines s \<noteq> []"
  by (induction s) (auto split: list.splits)

lemma join_Cons_char: "join sep ((c # l) # ls) = c # join sep (l # ls)"
  by (cases ls) simp_all

lemma join_split_lines: "join [CHR 0x0A] (split_lines s) = s"
proof (induction s)
  case Nil
  show ?case by simp
next
  case (Cons c cs)
  obtain l ls where sp: "split_lines cs = l # ls"
    using split_lines_not_Nil [of cs] by (cases "split_lines cs") auto
  show ?case
  proof (cases "c = CHR 0x0A")
    case True
    then show ?thesis using Cons sp by simp
  next
    case False
    then show ?thesis using Cons sp by (simp add: join_Cons_char)
  qed
qed

lemma split_lines_inj: "split_lines s = split_lines t \<Longrightarrow> s = t"
  by (metis join_split_lines)

lemma lcs_backtrack_subseq:
  "i \<le> length a \<Longrightarrow> j \<le> length b \<Longrightarrow>
   \<exists>xs. lcs_backtrack a b dp i j acc = xs @ acc \<and> subseq xs (take i a) \<and> subseq xs (take j b)"
proof (induction a b dp i j acc rule: lcs_backtrack.induct)
  case (1 a b dp i j result)
  show ?case
  proof (cases "i > 0 \<and> j > 0")
    case False
    then show ?thesis by (subst lcs_backtrack.simps) auto
  next
    case pos: True
    then obtain i' j' where ij: "i = Suc i'" "j = Suc j'"
      by (metis gr0_implies_Suc)
    have ta: "take i a = take i' a @ [a ! i']" using ij "1.prems" by (simp add: take_Suc_conv_app_nth)
    have tb: "take j b = take j' b @ [b ! j']" using ij "1.prems" by (simp add: take_Suc_conv_app_nth)
    show ?thesis
    proof (cases "a ! (i - 1) = b ! (j - 1)")
      case eq: True
      from "1.IH"(1) [OF pos eq] "1.prems" ij
      obtain xs where xs: "lcs_backtrack a b dp i' j' (a ! i' # result) = xs @ a ! i' # result"
        "subseq xs (take i' a)" "subseq xs (take j' b)" by auto
      have "lcs_backtrack a b dp i j result = (xs @ [a ! i']) @ result"
        using pos eq xs(1) ij by (subst lcs_backtrack.simps) simp
      moreover have "subseq (xs @ [a ! i']) (take i a)" using xs(2) ta by (simp add: list_emb_append_mono)
      moreover have "subseq (xs @ [a ! i']) (take j b)" using xs(3) tb eq ij by (simp add: list_emb_append_mono)
      ultimately show ?thesis by blast
    next
      case ne: False
      show ?thesis
      proof (cases "dp ! (i - 1) ! j > dp ! i ! (j - 1)")
        case gt: True
        from "1.IH"(2) [OF pos ne gt] "1.prems" ij
        obtain xs where xs: "lcs_backtrack a b dp i' j result = xs @ result"
          "subseq xs (take i' a)" "subseq xs (take j b)" by auto
        have "lcs_backtrack a b dp i j result = xs @ result"
          using pos ne gt xs(1) ij by (subst lcs_backtrack.simps) simp
        moreover have "subseq xs (take i a)" using xs(2) ta by (simp add: subseq_rev_drop_many)
        ultimately show ?thesis using xs(3) by blast
      next
        case le: False
        from "1.IH"(3) [OF pos ne le] "1.prems" ij
        obtain xs where xs: "lcs_backtrack a b dp i j' result = xs @ result"
          "subseq xs (take i a)" "subseq xs (take j' b)" by auto
        have "lcs_backtrack a b dp i j result = xs @ result"
          using pos ne le xs(1) ij by (subst lcs_backtrack.simps) simp
        moreover have "subseq xs (take j b)" using xs(3) tb by (simp add: subseq_rev_drop_many)
        ultimately show ?thesis using xs(2) by blast
      qed
    qed
  qed
qed

lemma buildLCS_subseq: "subseq (buildLCS a b) a \<and> subseq (buildLCS a b) b"
  using lcs_backtrack_subseq [of "length a" a "length b" b "lcs_table a b" "[]"]
  by (auto simp: buildLCS_def)

lemma side_Cons:
  "original_side (c # cs) = (if type c = Context \<or> type c = Removed then content c # original_side cs else original_side cs)"
  "revised_side (c # cs) = (if type c = Context \<or> type c = Added then content c # revised_side cs else revised_side cs)"
  "original_side [] = []" "revised_side [] = []"
  by (simp_all add: original_side_def revised_side_def)

lemma diff_walk_covers:
  assumes "subseq (drop li lcs) (drop oi ol)" and "subseq (drop li lcs) (drop ri rl)"
  shows "\<exists>res. diff_walk ol rl lcs oi ri li changes = Some (changes @ res)
           \<and> original_side res = drop oi ol \<and> revised_side res = drop ri rl"
  using assms
proof (induction "(length ol - oi) + (length rl - ri)" arbitrary: oi ri li changes rule: less_induct)
  case less
  note so = less.prems(1) and sr = less.prems(2)
  show ?case
  proof (cases "oi < length ol \<or> ri < length rl")
    case False
    then have "diff_walk ol rl lcs oi ri li changes = Some (changes @ [])"
      by (subst diff_walk.simps) simp
    moreover have "drop oi ol = []" "drop ri rl = []" using False by simp_all
    ultimately show ?thesis by (metis side_Cons(3,4))
  next
    case more: True
    let ?A = "li < length lcs \<and> oi < length ol \<and> ri < length rl
              \<and> ol ! oi = lcs ! li \<and> rl ! ri = lcs ! li"
    let ?B = "oi < length ol \<and> (li \<ge> length lcs \<or> ol ! oi \<noteq> lcs ! li)"
    let ?C = "ri < length rl \<and> (li \<ge> length lcs \<or> rl ! ri \<noteq> lcs ! li)"
    have heads: "li < length lcs \<Longrightarrow> oi < length ol \<and> ri < length rl"
    proof -
      assume l: "li < length lcs"
      then have "drop li lcs \<noteq> []" by simp
      then have "drop oi ol \<noteq> []" "drop ri rl \<noteq> []" using so sr by auto
      then show ?thesis by simp
    qed
    consider (a) ?A | (b) "\<not> ?A" ?B | (c) "\<not> ?A" "\<not> ?B" ?C
      using more heads by (cases "li < length lcs") auto
    then show ?thesis
    proof cases
      case a
      let ?c = "\<lparr>type = Context, lineNumber = ri + 1, content = lcs ! li\<rparr>"
      have dl: "drop li lcs = lcs ! li # drop (li + 1) lcs"
        and dol: "drop oi ol = lcs ! li # drop (oi + 1) ol"
        and drl: "drop ri rl = lcs ! li # drop (ri + 1) rl"
        using a by (simp_all add: Cons_nth_drop_Suc [symmetric])
      have so': "subseq (drop (li + 1) lcs) (drop (oi + 1) ol)" using so dl dol by simp
      have sr': "subseq (drop (li + 1) lcs) (drop (ri + 1) rl)" using sr dl drl by simp
      have m: "(length ol - (oi + 1)) + (length rl - (ri + 1)) < (length ol - oi) + (length rl - ri)"
        using a by arith
      from less.hyps [OF m so' sr', of "changes @ [?c]"]
      obtain res where res: "diff_walk ol rl lcs (oi + 1) (ri + 1) (li + 1) (changes @ [?c]) = Some ((changes @ [?c]) @ res)"
        "original_side res = drop (oi + 1) ol" "revised_side res = drop (ri + 1) rl" by blast
      have "diff_walk ol rl lcs oi ri li changes = Some (changes @ (?c # res))"
        using a res(1) by (subst diff_walk.simps) simp
      moreover have "original_side (?c # res) = drop oi ol" using res(2) dol by (simp add: side_Cons)
      moreover have "revised_side (?c # res) = drop ri rl" using res(3) drl by (simp add: side_Cons)
      ultimately show ?thesis by blast
    next
      case b
      let ?c = "\<lparr>type = Removed, lineNumber = oi + 1, content = ol ! oi\<rparr>"
      have dol: "drop oi ol = ol ! oi # drop (oi + 1) ol"
        using b by (simp add: Cons_nth_drop_Suc [symmetric])
      have so': "subseq (drop li lcs) (drop (oi + 1) ol)"
      proof (cases "li < length lcs")
        case True
        then have dl: "drop li lcs = lcs ! li # drop (li + 1) lcs"
          by (simp add: Cons_nth_drop_Suc [symmetric])
        have "ol ! oi \<noteq> lcs ! li" using b True by simp
        then show ?thesis using so dl dol by (metis subseq_Cons2_neq)
      next
        case False
        then show ?thesis by simp
      qed
      have m: "(length ol - (oi + 1)) + (length rl - ri) < (length ol - oi) + (length rl - ri)"
        using b by arith
      from less.hyps [OF m so' sr, of "changes @ [?c]"]
      obtain res where res: "diff_walk ol rl lcs (oi + 1) ri li (changes @ [?c]) = Some ((changes @ [?c]) @ res)"
        "original_side res = drop (oi + 1) ol" "revised_side res = drop ri rl" by blast
      have "diff_walk ol rl lcs oi ri li changes = Some (changes @ (?c # res))"
        using b res(1) by (subst diff_walk.simps) auto
      moreover have "original_side (?c # res) = drop oi ol" using res(2) dol by (simp add: side_Cons)
      moreover have "revised_side (?c # res) = drop ri rl" using res(3) by (simp add: side_Cons)
      ultimately show ?thesis by blast
    next
      case c
      let ?c = "\<lparr>type = Added, lineNumber = ri + 1, content = rl ! ri\<rparr>"
      have drl: "drop ri rl = rl ! ri # drop (ri + 1) rl"
        using c by (simp add: Cons_nth_drop_Suc [symmetric])
      have sr': "subseq (drop li lcs) (drop (ri + 1) rl)"
      proof (cases "li < length lcs")
        case True
        then have dl: "drop li lcs = lcs ! li # drop (li + 1) lcs"
          by (simp add: Cons_nth_drop_Suc [symmetric])
        have "rl ! ri \<noteq> lcs ! li" using c True by simp
        then show ?thesis using sr dl drl by (metis subseq_Cons2_neq)
      next
        case False
        then show ?thesis by simp
      qed
      have m: "(length ol - oi) + (length rl - (ri + 1)) < (length ol - oi) + (length rl - ri)"
        using c by arith
      from less.hyps [OF m so sr', of "changes @ [?c]"]
      obtain res where res: "diff_walk ol rl lcs oi (ri + 1) li (changes @ [?c]) = Some ((changes @ [?c]) @ res)"
        "original_side res = drop oi ol" "revised_side res = drop (ri + 1) rl" by blast
      have "diff_walk ol rl lcs oi ri li changes = Some (changes @ (?c # res))"
        using c res(1) by (subst diff_walk.simps) auto
      moreover have "original_side (?c # res) = drop oi ol" using res(2) by (simp add: side_Cons)
      moreover have "revised_side (?c # res) = drop ri rl" using res(3) drl by (simp add: side_Cons)
      ultimately show ?thesis by blast
    qed
  qed
qed

lemma computeDiff_covers_aux:
  assumes "original \<noteq> revised"
  shows "\<exists>changes. computeDiff original revised = Some changes
           \<and> original_side changes = split_lines original
           \<and> revised_side changes = split_lines revised"
  using assms buildLCS_subseq [of "split_lines original" "split_lines revised"]
    diff_walk_covers [of 0 "buildLCS (split_lines original) (split_lines revised)" 0 "split_lines original" 0 "split_lines revised" "[]"]
  by (simp add: computeDiff_def Let_def)


lemma all_context_sides:
  "\<forall>c \<in> set changes. type c = Context \<Longrightarrow> original_side changes = revised_side changes"
  by (induction changes) (simp_all add: side_Cons)

lemma no_change_entries:
  assumes "\<not> (\<exists>c \<in> set changes. type c = Added \<or> type c = Removed)"
  shows "\<forall>c \<in> set changes. type c = Context"
proof
  fix c assume "c \<in> set changes"
  then have "type c \<noteq> Added" "type c \<noteq> Removed" using assms by auto
  then show "type c = Context" by (cases "type c") simp_all
qed

text \<open>
  C8. For every pair of strings, \<open>computeDiff\<close> returns the empty change list exactly
  when the two strings are equal; for every pair of distinct strings it returns (its
  loop ends) a list that is not empty and has at least one entry of type added or
  removed.
\<close>

theorem computeDiff_empty_iff_equal:
  "(computeDiff original revised = Some [] \<longleftrightarrow> original = revised)
   \<and> (original \<noteq> revised \<longrightarrow>
        (\<exists>changes. computeDiff original revised = Some changes \<and> changes \<noteq> []
           \<and> (\<exists>c \<in> set changes. type c = Added \<or> type c = Removed)))"
proof -
  have distinct: "\<exists>changes. computeDiff original revised = Some changes \<and> changes \<noteq> []
           \<and> (\<exists>c \<in> set changes. type c = Added \<or> type c = Removed)" if ne: "original \<noteq> revised"
  proof -
    obtain changes where ch: "computeDiff original revised = Some changes"
      "original_side changes = split_lines original" "revised_side changes = split_lines revised"
      using computeDiff_covers_aux [OF ne] by blast
    have ex: "\<exists>c \<in> set changes. type c = Added \<or> type c = Removed"
    proof (rule ccontr)
      assume "\<not> ?thesis"
      then have "original_side changes = revised_side changes"
        using no_change_entries all_context_sides by blast
      then have "original = revised" using ch(2,3) split_lines_inj by simp
      then show False using ne by simp
    qed
    then have "changes \<noteq> []" by auto
    then show ?thesis using ch(1) ex by blast
  qed
  have "computeDiff original revised = Some [] \<longleftrightarrow> original = revised"
  proof
    assume e: "computeDiff original revised = Some []"
    show "original = revised"
    proof (rule ccontr)
      assume "original \<noteq> revised"
      then show False using distinct e by auto
    qed
  next
    assume "original = revised"
    then show "computeDiff original revised = Some []" by (simp add: computeDiff_def)
  qed
  then show ?thesis using distinct by blast
qed

text \<open>
  C10. For every pair of distinct strings, \<open>computeDiff\<close> returns a change list whose
  entries of type context or removed, in order, have as contents exactly the lines of
  the original string in their order, and whose entries of type context or added, in
  order, have as contents exactly the lines of the revised string in their order.
\<close>

theorem computeDiff_covers_both_inputs:
  assumes "original \<noteq> revised"
  shows "\<exists>changes. computeDiff original revised = Some changes
           \<and> original_side changes = split_lines original
           \<and> revised_side changes = split_lines revised"
  using assms by (rule computeDiff_covers_aux)

lemma computeDiff_v1_v2: "computeDiff prompt_v1 prompt_v2 = Some diff_v1_v2"
  by code_simp

lemma prompts_differ: "prompt_v1 \<noteq> prompt_v2"
  by (simp add: prompt_v1_def prompt_v2_def)

theorem computeDiff_empty_iff_equal_witness:
  "prompt_v1 \<noteq> prompt_v2 \<and> computeDiff prompt_v1 prompt_v2 = Some diff_v1_v2
   \<and> length diff_v1_v2 = 3 \<and> type (diff_v1_v2 ! 1) = Removed
   \<and> computeDiff prompt_v1 prompt_v1 = Some []"
proof -
  have "computeDiff prompt_v1 prompt_v1 = Some []"
    using computeDiff_empty_iff_equal [of prompt_v1 prompt_v1] by simp
  moreover have "\<exists>changes. computeDiff prompt_v1 prompt_v2 = Some changes \<and> changes \<noteq> []
           \<and> (\<exists>c \<in> set changes. type c = Added \<or> type c = Removed)"
    using computeDiff_empty_iff_equal [of prompt_v1 prompt_v2] prompts_differ by blast
  ultimately show ?thesis
    using prompts_differ computeDiff_v1_v2 by (simp add: diff_v1_v2_def)
qed

theorem computeDiff_covers_both_inputs_witness:
  "prompt_v1 \<noteq> prompt_v2
   \<and> original_side diff_v1_v2 = [''Greet the caller.'', ''Ask for a name.'']
   \<and> split_lines prompt_v1 = [''Greet the caller.'', ''Ask for a name.'']
   \<and> revised_side diff_v1_v2 = [''Greet the caller.'', ''Ask for a name and an email.'']
   \<and> split_lines prompt_v2 = [''Greet the caller.'', ''Ask for a name and an email.'']"
proof -
  have "original_side diff_v1_v2 = split_lines prompt_v1 \<and> revised_side diff_v1_v2 = split_lines prompt_v2"
    using computeDiff_covers_both_inputs [OF prompts_differ] computeDiff_v1_v2 by simp
  moreover have "original_side diff_v1_v2 = [''Greet the caller.'', ''Ask for a name.'']"
    "revised_side diff_v1_v2 = [''Greet the caller.'', ''Ask for a name and an email.'']"
    by (simp_all add: diff_v1_v2_def original_side_def revised_side_def)
  ultimately show ?thesis using prompts_differ by simp
qed

section \<open>The prompt optimizer\<close>

text \<open>
  C4. The claim: called with a non-empty list of failures and a client that returns the
  original prompt unchanged, the optimizer raises an error and neither returns nor stores
  a record whose revised prompt equals the original. The code at such a call, with one
  failure and a client that answers with the original prompt: it does not compare the
  two prompts, returns a record with status generated whose revised prompt is the
  original prompt, and stores it.
\<close>

theorem optimizePrompt_accepts_unchanged_revision:
  "[sample_failure] \<noteq> []
   \<and> echo_llm ''Be polite.'' [sample_failure] []
       = Inr \<lparr>or_originalPrompt = ''Be polite.'', or_revisedPrompt = ''Be polite.'',
              or_changes = [], or_targetedFailures = [''sc-1'']\<rparr>
   \<and> fst (optimizePrompt echo_llm ''opt-1'' Map.empty ''run-1'' ''agent-1'' ''Be polite.''
            [sample_failure] []) = Inr unchanged_record
   \<and> so_revisedPrompt unchanged_record = so_originalPrompt unchanged_record
   \<and> snd (optimizePrompt echo_llm ''opt-1'' Map.empty ''run-1'' ''agent-1'' ''Be polite.''
            [sample_failure] []) ''opt-1''
       = Some (unchanged_record\<lparr>so_targetedFailures := []\<rparr>)"
  by (simp add: echo_llm_def optimizePrompt_def sample_failure_def unchanged_record_def)

text \<open>
  In general the optimizer throws exactly when the client's call throws, with the
  client's error and nothing stored. When the client answers, the optimizer returns a
  record with status generated whose revised prompt is the client's, whatever it is, and
  stores it under the fresh id.
\<close>

lemma optimizePrompt_returns_client_revision:
  "(llm original failures passes = Inl err
      \<longrightarrow> optimizePrompt llm newId table testRunId aid original failures passes = (Inl err, table))
   \<and> (llm original failures passes = Inr result
      \<longrightarrow> (\<exists>stored. optimizePrompt llm newId table testRunId aid original failures passes
                       = (Inr stored, table(newId \<mapsto> stored\<lparr>so_targetedFailures := []\<rparr>))
                   \<and> so_originalPrompt stored = original
                   \<and> so_revisedPrompt stored = or_revisedPrompt result
                   \<and> so_status stored = Generated))"
  by (simp add: optimizePrompt_def Let_def)

lemma optimizePrompt_returns_client_revision_sample:
  "fst (optimizePrompt down_llm ''opt-1'' Map.empty ''run-1'' ''agent-1'' ''Be polite.'' [sample_failure] [])
     = Inl (Error ''LLM returned empty response'')
   \<and> (\<exists>stored. fst (optimizePrompt echo_llm ''opt-1'' Map.empty ''run-1'' ''agent-1'' ''Be polite.'' [sample_failure] [])
                  = Inr stored
        \<and> so_revisedPrompt stored = ''Be polite.'' \<and> so_originalPrompt stored = ''Be polite.''
        \<and> so_status stored = Generated)"
proof -
  have d: "down_llm ''Be polite.'' [sample_failure] [] = Inl (Error ''LLM returned empty response'')"
    by (simp add: down_llm_def)
  have e: "echo_llm ''Be polite.'' [sample_failure] []
           = Inr \<lparr>or_originalPrompt = ''Be polite.'', or_revisedPrompt = ''Be polite.'', or_changes = [],
                  or_targetedFailures = [''sc-1'']\<rparr>"
    by (simp add: echo_llm_def sample_failure_def)
  show ?thesis
    using optimizePrompt_returns_client_revision [where llm = down_llm and original = "''Be polite.''"
        and failures = "[sample_failure]" and passes = "[]" and err = "Error ''LLM returned empty response''"
        and newId = "''opt-1''" and table = Map.empty and testRunId = "''run-1''" and aid = "''agent-1''"] d
      optimizePrompt_returns_client_revision [where llm = echo_llm and original = "''Be polite.''"
        and failures = "[sample_failure]" and passes = "[]"
        and result = "\<lparr>or_originalPrompt = ''Be polite.'', or_revisedPrompt = ''Be polite.'', or_changes = [],
                  or_targetedFailures = [''sc-1'']\<rparr>"
        and newId = "''opt-1''" and table = Map.empty and testRunId = "''run-1''" and aid = "''agent-1''"] e
    by auto
qed

section \<open>The cycle orchestrator\<close>

lemma setFlag_frame:
  "snd (setFlag target w) = w\<lparr>stateFlag := stateFlag (snd (setFlag target w))\<rparr>"
  by (simp add: setFlag_def split: sum.splits)

lemma handle_request_frame:
  "handle_request r w = w\<lparr>stateFlag := stateFlag (handle_request r w)\<rparr>"
  by (cases r) (simp_all add: cancelCycle_def pauseCycle_def resumeCycle_def setFlag_frame [symmetric])

lemma apply_requests_Nil: "apply_requests [] w = w"
  by (simp add: apply_requests_def)

lemma apply_requests_Cons: "apply_requests (r # rs) w = apply_requests rs (handle_request r w)"
  by (simp add: apply_requests_def)

lemma apply_requests_frame:
  "apply_requests rs w = w\<lparr>stateFlag := stateFlag (apply_requests rs w)\<rparr>"
proof (induction rs arbitrary: w)
  case Nil
  show ?case by (simp add: apply_requests_Nil)
next
  case (Cons r rs)
  have "apply_requests (r # rs) w = (handle_request r w)\<lparr>stateFlag := stateFlag (apply_requests (r # rs) w)\<rparr>"
    using Cons [of "handle_request r w"] by (simp add: apply_requests_Cons)
  also have "\<dots> = w\<lparr>stateFlag := stateFlag (apply_requests (r # rs) w)\<rparr>"
    by (subst handle_request_frame) simp
  finally show ?case .
qed

lemma apply_requests_fields:
  "currentPrompt (apply_requests rs w) = currentPrompt w"
  "cycleRecord (apply_requests rs w) = cycleRecord w"
  "testRuns (apply_requests rs w) = testRuns w"
  "optimizationRecords (apply_requests rs w) = optimizationRecords w"
  "emitted (apply_requests rs w) = emitted w"
  "calls (apply_requests rs w) = calls w"
  by (subst apply_requests_frame, simp)+



lemma executeTestRun_frame:
  assumes "executeTestRun e config n w = (res, w')"
  shows "calls w' = calls w @ [CallExecuteTestRun n]"
    and "emitted w' = emitted w"
    and "cycleRecord w' = cycleRecord w"
    and "currentPrompt w' = currentPrompt w"
    and "optimizationRecords w' = optimizationRecords w"
    and "stateFlag w' = stateFlag (apply_requests (env_requests e n DuringTestRun)
                                    (w\<lparr>calls := calls w @ [CallExecuteTestRun n]\<rparr>))"
  using assms
  by (auto simp: executeTestRun_def Let_def apply_requests_fields split: prod.splits option.splits)


lemma optimizeStep_frame:
  assumes "optimizeStep e config v rid w = (res, w')"
  shows "calls w' = calls w \<or> calls w' = calls w @ [CallOptimizePrompt (l_cycleCount v)]"
    and "cycleRecord w' = cycleRecord w"
    and "testRuns w' = testRuns w"
  using assms
  by (auto simp: optimizeStep_def Let_def apply_requests_fields emit_def optimizePrompt_def
           split: prod.splits sum.splits if_splits)

lemma optimizeStep_flag:
  assumes "optimizeStep e config v rid w = (res, w')"
  shows "stateFlag w' = stateFlag w \<or>
         stateFlag w' = stateFlag (apply_requests (env_requests e (l_cycleCount v) DuringOptimization)
            (w\<lparr>calls := calls w @ [CallOptimizePrompt (l_cycleCount v)],
               optimizationRecords := snd (optimizePrompt (env_optimize e (l_cycleCount v))
                  (env_optId e (l_cycleCount v)) (optimizationRecords w) rid (agentId config)
                  (currentPrompt w) (fst (getResultsForRun w rid)) (snd (getResultsForRun w rid)))\<rparr>))"
  using assms
  by (auto simp: optimizeStep_def Let_def emit_def split: prod.splits sum.splits if_splits)

lemma optimizeStep_no_throw:
  assumes "\<forall>p fs ps. \<not> is_throw (env_optimize e (l_cycleCount v) p fs ps)"
  shows "\<exists>ids w'. optimizeStep e config v rid w = (Inr ids, w')"
  using assms
  by (auto simp: optimizeStep_def Let_def optimizePrompt_def is_throw_def split: prod.splits sum.splits)

lemma cap_less:
  "of_int c < maxCycles config \<longleftrightarrow> c < cap config"
  "of_int c + 1 < maxCycles config \<longleftrightarrow> c + 1 < cap config"
  "maxCycles config \<le> of_int c \<longleftrightarrow> cap config \<le> c"
proof -
  show "of_int c < maxCycles config \<longleftrightarrow> c < cap config" by (simp add: cap_def less_ceiling_iff)
  have "of_int (c + 1) < maxCycles config \<longleftrightarrow> c + 1 < cap config"
    unfolding cap_def less_ceiling_iff ..
  then show "of_int c + 1 < maxCycles config \<longleftrightarrow> c + 1 < cap config" by simp
  show "maxCycles config \<le> of_int c \<longleftrightarrow> cap config \<le> c" by (simp add: cap_def ceiling_le_iff)
qed

lemma loop_exit:
  "\<not> l_cycleCount v < cap config \<Longrightarrow>
   runCycleLoop_while e config v w = (None, finish v Completed w)"
  by (subst runCycleLoop_while.simps) (simp add: finish_def cap_less)

lemma loop_flagged:
  assumes "l_cycleCount v < cap config" and "st = Cancelled \<or> st = Paused"
    and "stateFlag w = Some st"
  shows "runCycleLoop_while e config v w = (None, finish v st w)"
  using assms by (subst runCycleLoop_while.simps) (auto simp: finish_def cap_less)

lemma loop_run_throws:
  assumes "l_cycleCount v < cap config"
    and "stateFlag w \<noteq> Some Cancelled" and "stateFlag w \<noteq> Some Paused"
    and "executeTestRun e config (l_cycleCount v + 1) (emit (CycleStart (l_cycleCount v + 1)) w) = (Inl err, w2)"
  shows "runCycleLoop_while e config v w = (Some err, w2)"
  using assms by (subst runCycleLoop_while.simps) (simp add: Let_def cap_less)

lemma loop_iteration:
  assumes "l_cycleCount v < cap config"
    and "stateFlag w \<noteq> Some Cancelled" and "stateFlag w \<noteq> Some Paused"
    and "executeTestRun e config (l_cycleCount v + 1) (emit (CycleStart (l_cycleCount v + 1)) w) = (Inr rid, w2)"
    and "v2 = after_run v rid w2"
    and "w3 = emit (TestRunComplete (l_cycleCount v + 1) (readPassRate w2 rid)) w2"
  shows "runCycleLoop_while e config v w =
     (if readPassRate w2 rid \<ge> targetThreshold config then (None, finish v2 Completed w3)
      else if l_cycleCount v + 1 < cap config then
        (case optimizeStep e config v2 rid w3 of
           (Inl err, w4) \<Rightarrow> (Some err, w4)
         | (Inr optIds, w4) \<Rightarrow> runCycleLoop_while e config (v2\<lparr>l_optimizationIds := optIds\<rparr>) w4)
      else runCycleLoop_while e config v2 w3)"
  using assms(1-4) unfolding assms(5,6) after_run_def finish_def
  by (subst runCycleLoop_while.simps) (simp add: Let_def cap_less)

lemma finish_fields:
  "cycleRecord (finish v st w) = \<lparr>cycleCount = l_cycleCount v, startingPassRate = 0,
      endingPassRate = l_currentPassRate v, cr_status = st, testRunIds = l_testRunIds v,
      optimizationIds = l_optimizationIds v\<rparr>"
  "calls (finish v st w) = calls w"
  "testRuns (finish v st w) = testRuns w"
  "emitted (finish v st w) = emitted w @ [Finished st (if st = Completed then Some (l_currentPassRate v) else None)]"
  by (simp_all add: finish_def emit_def updateCycleRecord_def)

lemma emit_fields:
  "calls (emit ev w) = calls w" "cycleRecord (emit ev w) = cycleRecord w"
  "stateFlag (emit ev w) = stateFlag w" "testRuns (emit ev w) = testRuns w"
  "currentPrompt (emit ev w) = currentPrompt w" "emitted (emit ev w) = emitted w @ [ev]"
  by (simp_all add: emit_def)

lemma count_calls_simps:
  "count_test_runs (cs @ ds) = count_test_runs cs + count_test_runs ds"
  "count_test_runs (CallExecuteTestRun n # cs) = count_test_runs cs + 1"
  "count_test_runs (CallOptimizePrompt n # cs) = count_test_runs cs"
  "count_test_runs [] = 0"
  "count_optimizations (cs @ ds) = count_optimizations cs + count_optimizations ds"
  "count_optimizations (CallExecuteTestRun n # cs) = count_optimizations cs"
  "count_optimizations (CallOptimizePrompt n # cs) = count_optimizations cs + 1"
  "count_optimizations [] = 0"
  by (simp_all add: count_test_runs_def count_optimizations_def)

lemma loop_test_runs_bound:
  "int (count_test_runs (calls (snd (runCycleLoop_while e config v w))))
     \<le> int (count_test_runs (calls w)) + max 0 (cap config - l_cycleCount v)"
proof (induction "nat (cap config - l_cycleCount v)" arbitrary: v w rule: less_induct)
  case less
  show ?case
  proof (cases "l_cycleCount v < cap config")
    case False
    then show ?thesis by (simp add: loop_exit finish_fields)
  next
    case lt: True
    show ?thesis
    proof (cases "stateFlag w = Some Cancelled \<or> stateFlag w = Some Paused")
      case True
      then show ?thesis using lt loop_flagged [OF lt, of _ w e] by (auto simp: finish_fields)
    next
      case False
      then have nf: "stateFlag w \<noteq> Some Cancelled" "stateFlag w \<noteq> Some Paused" by simp_all
      let ?n = "l_cycleCount v + 1"
      obtain res w2 where ex: "executeTestRun e config ?n (emit (CycleStart ?n) w) = (res, w2)"
        by (cases "executeTestRun e config ?n (emit (CycleStart ?n) w)") auto
      have c2: "calls w2 = calls w @ [CallExecuteTestRun ?n]"
        using executeTestRun_frame(1) [OF ex] by (simp add: emit_fields)
      show ?thesis
      proof (cases res)
        case (Inl err)
        then show ?thesis using loop_run_throws [OF lt nf] ex c2 lt by (simp add: count_calls_simps)
      next
        case (Inr rid)
        define v2 where "v2 = after_run v rid w2"
        define w3 where "w3 = emit (TestRunComplete ?n (readPassRate w2 rid)) w2"
        have c3: "calls w3 = calls w @ [CallExecuteTestRun ?n]" using c2 by (simp add: w3_def emit_fields)
        have n2: "l_cycleCount v2 = ?n" by (simp add: v2_def after_run_def)
        note it = loop_iteration [OF lt nf ex [unfolded Inr] v2_def w3_def]
        show ?thesis
        proof (cases "readPassRate w2 rid \<ge> targetThreshold config")
          case True
          then show ?thesis using it c3 lt by (simp add: finish_fields count_calls_simps)
        next
          case below: False
          show ?thesis
          proof (cases "?n < cap config")
            case more: True
            obtain res2 w4 where os: "optimizeStep e config v2 rid w3 = (res2, w4)"
              by (cases "optimizeStep e config v2 rid w3") auto
            have c4: "count_test_runs (calls w4) = count_test_runs (calls w) + 1"
              using optimizeStep_frame(1) [OF os] c3 by (auto simp: count_calls_simps)
            show ?thesis
            proof (cases res2)
              case (Inl err)
              then show ?thesis using it below more os c4 lt by simp
            next
              case (Inr ids)
              have m: "nat (cap config - l_cycleCount (v2\<lparr>l_optimizationIds := ids\<rparr>))
                       < nat (cap config - l_cycleCount v)" using n2 lt by simp
              show ?thesis using less.hyps [OF m, of w4] it below more os Inr c4 n2 lt by simp
            qed
          next
            case last: False
            have m: "nat (cap config - l_cycleCount v2) < nat (cap config - l_cycleCount v)"
              using n2 lt by simp
            show ?thesis using less.hyps [OF m, of w3] it below last c3 n2 lt
              by (simp add: count_calls_simps)
          qed
        qed
      qed
    qed
  qed
qed

lemma measured_pass_rate_Some:
  assumes "measured_pass_rate e config n w = Some r"
  shows "\<exists>rid w2. executeTestRun e config n w = (Inr rid, w2) \<and> readPassRate w2 rid = r"
  using assms by (auto simp: measured_pass_rate_def split: prod.splits sum.splits)

lemma apply_requests_flag_ignores:
  "stateFlag (apply_requests rs (w\<lparr>calls := cs\<rparr>)) = stateFlag (apply_requests rs w)"
  "stateFlag (apply_requests rs (w\<lparr>calls := cs, optimizationRecords := t\<rparr>)) = stateFlag (apply_requests rs w)"
proof -
  have h: "\<And>r w cs. handle_request r (w\<lparr>calls := cs\<rparr>) = (handle_request r w)\<lparr>calls := cs\<rparr>"
    "\<And>r w t. handle_request r (w\<lparr>optimizationRecords := t\<rparr>) = (handle_request r w)\<lparr>optimizationRecords := t\<rparr>"
    subgoal for r w cs
      by (cases r) (simp_all add: cancelCycle_def pauseCycle_def resumeCycle_def setFlag_def split: sum.splits)
    subgoal for r w t
      by (cases r) (simp_all add: cancelCycle_def pauseCycle_def resumeCycle_def setFlag_def split: sum.splits)
    done
  have a: "\<And>w cs. apply_requests rs (w\<lparr>calls := cs\<rparr>) = (apply_requests rs w)\<lparr>calls := cs\<rparr>"
    by (induction rs) (simp_all add: apply_requests_Nil apply_requests_Cons h)
  have b: "\<And>w t. apply_requests rs (w\<lparr>optimizationRecords := t\<rparr>) = (apply_requests rs w)\<lparr>optimizationRecords := t\<rparr>"
    by (induction rs) (simp_all add: apply_requests_Nil apply_requests_Cons h)
  show "stateFlag (apply_requests rs (w\<lparr>calls := cs\<rparr>)) = stateFlag (apply_requests rs w)"
    by (simp add: a)
  show "stateFlag (apply_requests rs (w\<lparr>calls := cs, optimizationRecords := t\<rparr>)) = stateFlag (apply_requests rs w)"
    by (simp add: a b)
qed

lemma executeTestRun_flag:
  assumes "executeTestRun e config n w = (res, w')"
  shows "stateFlag w' = stateFlag (apply_requests (env_requests e n DuringTestRun) w)"
  using executeTestRun_frame(6) [OF assms] by (simp add: apply_requests_flag_ignores)


lemma loop_runs_to_cap:
  assumes below: "\<forall>n w. \<exists>r. measured_pass_rate e config n w = Some r \<and> r < targetThreshold config"
    and noreq: "\<forall>n p. env_requests e n p = []"
    and noopt: "\<forall>n p fs ps. \<not> is_throw (env_optimize e n p fs ps)"
  shows "stateFlag w \<noteq> Some Cancelled \<Longrightarrow> stateFlag w \<noteq> Some Paused \<Longrightarrow>
         l_cycleCount v \<le> cap config \<Longrightarrow>
         \<exists>w'. runCycleLoop_while e config v w = (None, w')
            \<and> cr_status (cycleRecord w') = Completed
            \<and> cycleCount (cycleRecord w') = cap config
            \<and> int (length (testRunIds (cycleRecord w')))
                 = int (length (l_testRunIds v)) + (cap config - l_cycleCount v)
            \<and> int (count_test_runs (calls w'))
                 = int (count_test_runs (calls w)) + (cap config - l_cycleCount v)
            \<and> int (count_optimizations (calls w'))
                 \<le> int (count_optimizations (calls w)) + max 0 (cap config - l_cycleCount v - 1)"
proof (induction "nat (cap config - l_cycleCount v)" arbitrary: v w rule: less_induct)
  case less
  note nf = less.prems(1,2)
  show ?case
  proof (cases "l_cycleCount v < cap config")
    case False
    then have "l_cycleCount v = cap config" using less.prems(3) by simp
    then show ?thesis using False by (simp add: loop_exit finish_fields)
  next
    case lt: True
    let ?n = "l_cycleCount v + 1"
    obtain r where r: "measured_pass_rate e config ?n (emit (CycleStart ?n) w) = Some r"
      "r < targetThreshold config" using below by blast
    obtain rid w2 where ex: "executeTestRun e config ?n (emit (CycleStart ?n) w) = (Inr rid, w2)"
      and rate: "readPassRate w2 rid = r" using measured_pass_rate_Some [OF r(1)] by blast
    define v2 where "v2 = after_run v rid w2"
    define w3 where "w3 = emit (TestRunComplete ?n (readPassRate w2 rid)) w2"
    have c3: "calls w3 = calls w @ [CallExecuteTestRun ?n]"
      using executeTestRun_frame(1) [OF ex] by (simp add: w3_def emit_fields)
    have f3: "stateFlag w3 = stateFlag w"
      using executeTestRun_flag [OF ex] noreq by (simp add: w3_def emit_fields apply_requests_Nil)
    have n2: "l_cycleCount v2 = ?n" "l_testRunIds v2 = l_testRunIds v @ [rid]"
      by (simp_all add: v2_def after_run_def)
    note it = loop_iteration [OF lt nf ex v2_def w3_def]
    have nb: "\<not> readPassRate w2 rid \<ge> targetThreshold config" using rate r(2) by simp
    show ?thesis
    proof (cases "?n < cap config")
      case more: True
      obtain ids w4 where os: "optimizeStep e config v2 rid w3 = (Inr ids, w4)"
        using optimizeStep_no_throw [of e v2 config rid w3] noopt by blast
      have c4: "calls w4 = calls w3 \<or> calls w4 = calls w3 @ [CallOptimizePrompt (l_cycleCount v2)]"
        using optimizeStep_frame(1) [OF os] .
      have f4: "stateFlag w4 = stateFlag w"
        using optimizeStep_flag [OF os] noreq f3 by (auto simp: apply_requests_Nil)
      let ?v3 = "v2\<lparr>l_optimizationIds := ids\<rparr>"
      have m: "nat (cap config - l_cycleCount ?v3) < nat (cap config - l_cycleCount v)"
        using n2 lt by simp
      have le3: "l_cycleCount ?v3 \<le> cap config" using n2 more by simp
      from less.hyps [OF m _ _ le3, of w4] f4 nf
      obtain w' where w': "runCycleLoop_while e config ?v3 w4 = (None, w')"
        "cr_status (cycleRecord w') = Completed" "cycleCount (cycleRecord w') = cap config"
        "int (length (testRunIds (cycleRecord w'))) = int (length (l_testRunIds ?v3)) + (cap config - l_cycleCount ?v3)"
        "int (count_test_runs (calls w')) = int (count_test_runs (calls w4)) + (cap config - l_cycleCount ?v3)"
        "int (count_optimizations (calls w')) \<le> int (count_optimizations (calls w4)) + max 0 (cap config - l_cycleCount ?v3 - 1)"
        by auto
      have "runCycleLoop_while e config v w = (None, w')" using it nb more os w'(1) by simp
      moreover have "int (length (testRunIds (cycleRecord w'))) = int (length (l_testRunIds v)) + (cap config - l_cycleCount v)"
        using w'(4) n2 by simp
      moreover have "int (count_test_runs (calls w')) = int (count_test_runs (calls w)) + (cap config - l_cycleCount v)"
        using w'(5) c4 c3 n2 by (auto simp: count_calls_simps)
      moreover have "int (count_optimizations (calls w')) \<le> int (count_optimizations (calls w)) + max 0 (cap config - l_cycleCount v - 1)"
        using w'(6) c4 c3 n2 more by (auto simp: count_calls_simps)
      ultimately show ?thesis using w'(2,3) by blast
    next
      case last: False
      then have eq: "?n = cap config" using lt by simp
      have "runCycleLoop_while e config v2 w3 = (None, finish v2 Completed w3)"
        using loop_exit [of v2 config e w3] n2 last by simp
      then have "runCycleLoop_while e config v w = (None, finish v2 Completed w3)"
        using it nb last by simp
      then show ?thesis using n2 c3 eq by (simp add: finish_fields count_calls_simps)
    qed
  qed
qed

lemma startCycle_loop:
  "runCycleLoop_while e config initial_vars (started w) = (None, w') \<Longrightarrow> startCycle e config w = (None, w')"
  by (simp add: startCycle_def runCycleLoop_def)

lemma startCycle_calls:
  "calls (snd (startCycle e config w)) = calls (snd (runCycleLoop_while e config initial_vars (started w)))"
  by (simp add: startCycle_def runCycleLoop_def emit_def
        split: prod.splits option.splits js_error.splits)



lemma optimizeStep_emitted:
  assumes "optimizeStep e config v rid w = (res, w')"
  shows "emitted w' = emitted w \<or> emitted w' = emitted w @ [OptimizationComplete (l_cycleCount v)]"
  using assms
  by (auto simp: optimizeStep_def Let_def apply_requests_fields emit_def optimizePrompt_def
           split: prod.splits sum.splits if_splits)






text \<open>
  The same from the side of the environment: when every test run, in whatever world it is
  started, measures a pass rate below the threshold, no control request arrives and the
  optimizer never throws, the loop does not reject and ends at the cap.
\<close>

lemma cycle_loop_runs_to_cap_when_nothing_throws:
  assumes "1 \<le> cap config"
    and "\<forall>n w. \<exists>r. measured_pass_rate e config n w = Some r \<and> r < targetThreshold config"
    and "\<forall>n p. env_requests e n p = []"
    and "\<forall>n p fs ps. \<not> is_throw (env_optimize e n p fs ps)"
  shows "(\<exists>w'. startCycle e config w = (None, w')
            \<and> cr_status (cycleRecord w') = Completed
            \<and> cycleCount (cycleRecord w') = cap config
            \<and> int (length (testRunIds (cycleRecord w'))) = cap config
            \<and> int (count_test_runs (calls w')) = int (count_test_runs (calls w)) + cap config
            \<and> int (count_optimizations (calls w'))
                 \<le> int (count_optimizations (calls w)) + (cap config - 1))
       \<and> (\<forall>e' w0. int (count_test_runs (calls (snd (startCycle e' config w0))))
                      \<le> int (count_test_runs (calls w0)) + cap config)"
proof
  have f: "stateFlag (started w) \<noteq> Some Cancelled" "stateFlag (started w) \<noteq> Some Paused"
    by (simp_all add: started_def)
  have le: "l_cycleCount initial_vars \<le> cap config" using assms(1) by (simp add: initial_vars_def)
  from loop_runs_to_cap [OF assms(2,3,4) f le]
  obtain w' where w': "runCycleLoop_while e config initial_vars (started w) = (None, w')"
    "cr_status (cycleRecord w') = Completed" "cycleCount (cycleRecord w') = cap config"
    "int (length (testRunIds (cycleRecord w'))) = int (length (l_testRunIds initial_vars)) + (cap config - l_cycleCount initial_vars)"
    "int (count_test_runs (calls w')) = int (count_test_runs (calls (started w))) + (cap config - l_cycleCount initial_vars)"
    "int (count_optimizations (calls w')) \<le> int (count_optimizations (calls (started w))) + max 0 (cap config - l_cycleCount initial_vars - 1)"
    by blast
  have "startCycle e config w = (None, w')" using w'(1) by (rule startCycle_loop)
  moreover have "int (length (testRunIds (cycleRecord w'))) = cap config"
    using w'(4) by (simp add: initial_vars_def)
  moreover have "int (count_test_runs (calls w')) = int (count_test_runs (calls w)) + cap config"
    using w'(5) by (simp add: initial_vars_def started_def)
  moreover have "int (count_optimizations (calls w')) \<le> int (count_optimizations (calls w)) + (cap config - 1)"
    using w'(6) assms(1) by (simp add: initial_vars_def started_def)
  ultimately show "\<exists>w'. startCycle e config w = (None, w')
            \<and> cr_status (cycleRecord w') = Completed
            \<and> cycleCount (cycleRecord w') = cap config
            \<and> int (length (testRunIds (cycleRecord w'))) = cap config
            \<and> int (count_test_runs (calls w')) = int (count_test_runs (calls w)) + cap config
            \<and> int (count_optimizations (calls w'))
                 \<le> int (count_optimizations (calls w)) + (cap config - 1)"
    using w'(2,3) by blast
next
  show "\<forall>e' w0. int (count_test_runs (calls (snd (startCycle e' config w0))))
                      \<le> int (count_test_runs (calls w0)) + cap config"
  proof (intro allI)
    fix e' w0
    show "int (count_test_runs (calls (snd (startCycle e' config w0))))
                      \<le> int (count_test_runs (calls w0)) + cap config"
      using loop_test_runs_bound [of e' config initial_vars "started w0"] assms(1)
      by (simp add: startCycle_calls initial_vars_def started_def)
  qed
qed

lemma below_so_far_event:
  "below_so_far config w \<Longrightarrow> TestRunComplete k r \<in> set (emitted w) \<Longrightarrow> r < targetThreshold config"
  by (auto simp: below_so_far_def list_all_iff)

lemma loop_stops_at_threshold:
  "below_so_far config w \<Longrightarrow> calls_up_to (l_cycleCount v) w \<Longrightarrow>
   TestRunComplete k r \<in> set (emitted (snd (runCycleLoop_while e config v w))) \<Longrightarrow>
   targetThreshold config \<le> r \<Longrightarrow>
   stopped_at k r (runCycleLoop_while e config v w)"
proof (induction "nat (cap config - l_cycleCount v)" arbitrary: v w rule: less_induct)
  case less
  note inv = less.prems(1) and cu = less.prems(2) and ev = less.prems(3) and ge = less.prems(4)
  have old: "TestRunComplete k r \<notin> set (emitted w)"
  proof
    assume "TestRunComplete k r \<in> set (emitted w)"
    then have "r < targetThreshold config" by (rule below_so_far_event [OF inv])
    then show False using ge by simp
  qed
  show ?case
  proof (cases "l_cycleCount v < cap config")
    case False
    then show ?thesis using ev old by (simp add: loop_exit finish_fields)
  next
    case lt: True
    show ?thesis
    proof (cases "stateFlag w = Some Cancelled \<or> stateFlag w = Some Paused")
      case True
      then show ?thesis using ev old loop_flagged [OF lt, of _ w e] by (auto simp: finish_fields)
    next
      case False
      then have nf: "stateFlag w \<noteq> Some Cancelled" "stateFlag w \<noteq> Some Paused" by simp_all
      let ?n = "l_cycleCount v + 1"
      obtain res w2 where ex: "executeTestRun e config ?n (emit (CycleStart ?n) w) = (res, w2)"
        by (cases "executeTestRun e config ?n (emit (CycleStart ?n) w)") auto
      have e2: "emitted w2 = emitted w @ [CycleStart ?n]"
        using executeTestRun_frame(2) [OF ex] by (simp add: emit_fields)
      have c2: "calls w2 = calls w @ [CallExecuteTestRun ?n]"
        using executeTestRun_frame(1) [OF ex] by (simp add: emit_fields)
      show ?thesis
      proof (cases res)
        case (Inl err)
        then show ?thesis using loop_run_throws [OF lt nf] ex e2 ev old by auto
      next
        case (Inr rid)
        define v2 where "v2 = after_run v rid w2"
        define w3 where "w3 = emit (TestRunComplete ?n (readPassRate w2 rid)) w2"
        have n2: "l_cycleCount v2 = ?n" "l_currentPassRate v2 = readPassRate w2 rid"
          by (simp_all add: v2_def after_run_def)
        have e3: "emitted w3 = emitted w @ [CycleStart ?n, TestRunComplete ?n (readPassRate w2 rid)]"
          using e2 by (simp add: w3_def emit_fields)
        have c3: "calls w3 = calls w @ [CallExecuteTestRun ?n]" using c2 by (simp add: w3_def emit_fields)
        have cu3: "calls_up_to ?n w3" using cu c3 by (auto simp: calls_up_to_def call_index_def list_all_iff)
        note it = loop_iteration [OF lt nf ex [unfolded Inr] v2_def w3_def]
        show ?thesis
        proof (cases "readPassRate w2 rid \<ge> targetThreshold config")
          case True
          then have fin: "runCycleLoop_while e config v w = (None, finish v2 Completed w3)" using it by simp
          then have "TestRunComplete k r \<in> set (emitted w) \<or> (k = ?n \<and> r = readPassRate w2 rid)"
            using ev e3 by (auto simp: finish_fields)
          then have kr: "k = ?n" "r = readPassRate w2 rid" using old by simp_all
          have "CallOptimizePrompt ?n \<notin> set (calls w)" "CallExecuteTestRun (?n + 1) \<notin> set (calls w)"
            using cu by (auto simp: calls_up_to_def call_index_def list_all_iff)
          then show ?thesis using fin kr n2 c3 by (simp add: stopped_at_def finish_fields)
        next
          case below: False
          have inv3: "below_so_far config w3"
            using inv below e3 by (simp add: below_so_far_def)
          show ?thesis
          proof (cases "?n < cap config")
            case more: True
            obtain res2 w4 where os: "optimizeStep e config v2 rid w3 = (res2, w4)"
              by (cases "optimizeStep e config v2 rid w3") auto
            have inv4: "below_so_far config w4"
              using optimizeStep_emitted [OF os] inv3 by (auto simp: below_so_far_def)
            have cu4: "calls_up_to ?n w4"
              using optimizeStep_frame(1) [OF os] cu3 n2
              by (auto simp: calls_up_to_def call_index_def list_all_iff)
            show ?thesis
            proof (cases res2)
              case (Inl err)
              then have "runCycleLoop_while e config v w = (Some err, w4)" using it below more os by simp
              then have "TestRunComplete k r \<in> set (emitted w4)" using ev by simp
              then have "r < targetThreshold config" by (rule below_so_far_event [OF inv4])
              then show ?thesis using ge by simp
            next
              case (Inr ids)
              let ?v3 = "v2\<lparr>l_optimizationIds := ids\<rparr>"
              have m: "nat (cap config - l_cycleCount ?v3) < nat (cap config - l_cycleCount v)"
                using n2 lt by simp
              have eq: "runCycleLoop_while e config v w = runCycleLoop_while e config ?v3 w4"
                using it below more os Inr by simp
              have cu4': "calls_up_to (l_cycleCount ?v3) w4" using cu4 n2 by simp
              show ?thesis using less.hyps [OF m inv4 cu4' _ ge] ev eq by simp
            qed
          next
            case last: False
            have m: "nat (cap config - l_cycleCount v2) < nat (cap config - l_cycleCount v)"
              using n2 lt by simp
            have eq: "runCycleLoop_while e config v w = runCycleLoop_while e config v2 w3"
              using it below last by simp
            have cu3': "calls_up_to (l_cycleCount v2) w3" using cu3 n2 by simp
            show ?thesis using less.hyps [OF m inv3 cu3' _ ge] ev eq by simp
          qed
        qed
      qed
    qed
  qed
qed

lemma startCycle_emitted:
  "TestRunComplete k r \<in> set (emitted (snd (startCycle e config w)))
   \<Longrightarrow> TestRunComplete k r \<in> set (emitted (snd (runCycleLoop_while e config initial_vars (started w))))"
  by (auto simp: startCycle_def runCycleLoop_def emit_def split: prod.splits option.splits js_error.splits)

lemma startCycle_stopped:
  "stopped_at k r (runCycleLoop_while e config initial_vars (started w)) \<Longrightarrow> stopped_at k r (startCycle e config w)"
  by (auto simp: stopped_at_def startCycle_def runCycleLoop_def split: prod.splits option.splits js_error.splits)

text \<open>
  C2. In every run of \<open>startCycle\<close> from fresh logs: if the test run of cycle
  \<open>k\<close> completed with a pass rate \<open>r\<close> of at least the target threshold (the
  event \<open>TestRunComplete k r\<close> was emitted), then the loop did not reject, the
  persisted status is completed with \<open>cycleCount = k\<close> and ending pass rate
  \<open>r\<close>, and the last collaborator call of the run is the test run of cycle
  \<open>k\<close>: the optimizer was not invoked for cycle \<open>k\<close> and the test run of cycle
  \<open>k + 1\<close> was not started.
\<close>

theorem threshold_ends_the_cycle:
  assumes "emitted w = []" and "calls w = []"
    and "TestRunComplete k r \<in> set (emitted (snd (startCycle e config w)))"
    and "targetThreshold config \<le> r"
  shows "fst (startCycle e config w) = None
       \<and> cr_status (cycleRecord (snd (startCycle e config w))) = Completed
       \<and> cycleCount (cycleRecord (snd (startCycle e config w))) = k
       \<and> endingPassRate (cycleRecord (snd (startCycle e config w))) = r
       \<and> calls (snd (startCycle e config w)) \<noteq> []
       \<and> last (calls (snd (startCycle e config w))) = CallExecuteTestRun k
       \<and> CallOptimizePrompt k \<notin> set (calls (snd (startCycle e config w)))
       \<and> CallExecuteTestRun (k + 1) \<notin> set (calls (snd (startCycle e config w)))"
proof -
  have i: "below_so_far config (started w)" using assms(1) by (simp add: below_so_far_def started_def)
  have c: "calls_up_to (l_cycleCount initial_vars) (started w)"
    using assms(2) by (simp add: calls_up_to_def started_def)
  have "stopped_at k r (startCycle e config w)"
    using loop_stops_at_threshold [OF i c startCycle_emitted [OF assms(3)] assms(4)]
    by (rule startCycle_stopped)
  then show ?thesis by (simp add: stopped_at_def)
qed














lemma improving_run:
  "emitted (snd (startCycle improving_env (sample_config 3) blank_world))
     = [CycleStart 1, TestRunComplete 1 0, OptimizationComplete 1, CycleStart 2,
        TestRunComplete 2 1, Finished Completed (Some 1)]
   \<and> calls (snd (startCycle improving_env (sample_config 3) blank_world))
     = [CallExecuteTestRun 1, CallOptimizePrompt 1, CallExecuteTestRun 2]"
  by code_simp

theorem threshold_ends_the_cycle_witness:
  "emitted blank_world = [] \<and> calls blank_world = []
   \<and> emitted (snd (startCycle improving_env (sample_config 3) blank_world))
     = [CycleStart 1, TestRunComplete 1 0, OptimizationComplete 1, CycleStart 2,
        TestRunComplete 2 1, Finished Completed (Some 1)]
   \<and> targetThreshold (sample_config 3) \<le> 1
   \<and> fst (startCycle improving_env (sample_config 3) blank_world) = None
   \<and> cr_status (cycleRecord (snd (startCycle improving_env (sample_config 3) blank_world))) = Completed
   \<and> cycleCount (cycleRecord (snd (startCycle improving_env (sample_config 3) blank_world))) = 2
   \<and> last (calls (snd (startCycle improving_env (sample_config 3) blank_world))) = CallExecuteTestRun 2
   \<and> CallOptimizePrompt 2 \<notin> set (calls (snd (startCycle improving_env (sample_config 3) blank_world)))
   \<and> CallExecuteTestRun 3 \<notin> set (calls (snd (startCycle improving_env (sample_config 3) blank_world)))"
proof -
  have h1: "emitted blank_world = []" and h2: "calls blank_world = []"
    by (simp_all add: blank_world_def)
  have h3: "TestRunComplete 2 1 \<in> set (emitted (snd (startCycle improving_env (sample_config 3) blank_world)))"
    using improving_run by simp
  have h4: "targetThreshold (sample_config 3) \<le> 1" by (simp add: sample_config_def)
  show ?thesis
    using threshold_ends_the_cycle [OF h1 h2 h3 h4] h1 h2 h4 improving_run by simp
qed







end
